theory Spec2Isabelle
  imports Complex_Main "HOL-Library.Multiset"
begin

section \<open>Errors and floating-point results\<close>

text \<open>
  The recognition driver of \<^verbatim>\<open>surya/recognition.py\<close> is embedded function by function.
  Every exception the Python can raise is a value of \<open>error\<close>; a function that can
  raise returns \<open>error + 'a\<close> with \<open>Inl\<close> for the exception.  The numbers of the memory
  budget are doubles with their rounding and their overflow.  The scores of the decoding
  loop are real numbers (exact arithmetic); the one floating-point effect the claims
  speak about there, the silent \<open>0 / 0\<close> of a tensor division, is the value \<open>NaN\<close> of
  \<open>confidence\<close>.
\<close>

datatype error =
    AssertionError
  | ValueError
  | TypeError
  | IndexError
  | ZeroDivisionError
  | OverflowError
  | AttributeError
  | RuntimeError
  | OSError

datatype confidence = Conf real | NaN

section \<open>Double arithmetic of the memory budget\<close>

text \<open>
  Python's \<^verbatim>\<open>float\<close> is the IEEE 754 double.  A finite double is the real number it
  stands for.  All numbers of lines 19 to 49 are nonnegative (the readings are natural
  numbers, the constants are positive), so the only infinity is the positive one.

  \<open>round_double\<close> rounds a real number to the nearest double, ties to the even
  significand: the unit in the last place of \<open>x\<close> is \<open>2\<close> to the power of the exponent of
  \<open>x\<close> (at least \<open>-1022\<close>, where the subnormal numbers start) minus 52.  A result whose
  rounding would reach \<open>2 ^ 1024\<close>, that is a result of at least \<open>2 ^ 1024 - 2 ^ 970\<close>,
  overflows.
\<close>

definition overflow_threshold :: real where
  "overflow_threshold = 2 ^ 1024 - 2 ^ 970"

definition round_ties_even :: "real \<Rightarrow> int" where
  "round_ties_even y =
     (let f = \<lfloor>y\<rfloor>
      in if y - of_int f < 1 / 2 then f
         else if 1 / 2 < y - of_int f then f + 1
         else if even f then f else f + 1)"

definition ulp :: "real \<Rightarrow> real" where
  "ulp x = 2 powi (max (- 1022) \<lfloor>log 2 \<bar>x\<bar>\<rfloor> - 52)"

definition round_double :: "real \<Rightarrow> real" where
  "round_double x =
     (if x = 0 then 0
      else sgn x * (of_int (round_ties_even (\<bar>x\<bar> / ulp x)) * ulp x))"

datatype double = Finite real | PosInf

text \<open>The double that an operation with the exact nonnegative result \<open>x\<close> returns.\<close>

definition to_double :: "real \<Rightarrow> double" where
  "to_double x = (if overflow_threshold \<le> x then PosInf else Finite (round_double x))"

text \<open>
  \<^verbatim>\<open>a / b\<close> on two Python integers (lines 19 and 24; \<open>b\<close> is \<^verbatim>\<open>1024**3\<close>) is the correctly
  rounded quotient, and raises \<^verbatim>\<open>OverflowError\<close> when the quotient is too large for a
  double.  The product and the quotient of doubles (lines 27, 46 and 49; the second
  operand is a positive constant) overflow to infinity without an exception.
  \<^verbatim>\<open>math.floor\<close> raises \<^verbatim>\<open>OverflowError\<close> on infinity.  The truth value of a double is
  false for zero only.
\<close>

definition int_true_div :: "nat \<Rightarrow> nat \<Rightarrow> error + double" where
  "int_true_div a b =
     (case to_double (real a / real b) of
        PosInf \<Rightarrow> Inl OverflowError
      | Finite v \<Rightarrow> Inr (Finite v))"

definition float_mul :: "double \<Rightarrow> real \<Rightarrow> double" where
  "float_mul x c = (case x of Finite a \<Rightarrow> to_double (a * c) | PosInf \<Rightarrow> PosInf)"

definition float_div :: "double \<Rightarrow> real \<Rightarrow> double" where
  "float_div x c = (case x of Finite a \<Rightarrow> to_double (a / c) | PosInf \<Rightarrow> PosInf)"

definition math_floor :: "double \<Rightarrow> error + int" where
  "math_floor x = (case x of Finite a \<Rightarrow> Inr \<lfloor>a\<rfloor> | PosInf \<Rightarrow> Inl OverflowError)"

definition truth_value :: "double \<Rightarrow> bool" where
  "truth_value x = (case x of Finite a \<Rightarrow> a \<noteq> 0 | PosInf \<Rightarrow> True)"

text \<open>The doubles that the literals \<^verbatim>\<open>0.7\<close>, \<^verbatim>\<open>0.8\<close> and \<^verbatim>\<open>0.1\<close> denote.\<close>

definition double_0_7 :: real where
  "double_0_7 = 3152519739159347 / 2 ^ 52"

definition double_0_8 :: real where
  "double_0_8 = 3602879701896397 / 2 ^ 52"

definition double_0_1 :: real where
  "double_0_1 = 3602879701896397 / 2 ^ 55"

section \<open>Memory budget: \<^verbatim>\<open>get_available_memory_gb\<close> and \<^verbatim>\<open>get_batch_size\<close>\<close>

text \<open>
  The two functions read the environment: \<^verbatim>\<open>settings.TORCH_DEVICE_MODEL\<close>,
  \<^verbatim>\<open>psutil.virtual_memory().available\<close> (bytes), \<^verbatim>\<open>torch.cuda.is_available()\<close> and
  \<^verbatim>\<open>torch.cuda.get_device_properties(0).total_memory\<close> (bytes).  The two memory queries
  are calls into libraries and can raise; the source has no \<^verbatim>\<open>try\<close> around them.
\<close>

record memory_env =
  TORCH_DEVICE_MODEL :: string
  virtual_memory_available :: "error + nat"
  cuda_is_available :: bool
  cuda_total_memory :: "error + nat"

definition get_available_memory_gb :: "memory_env \<Rightarrow> error + (double \<times> double option)" where
  "get_available_memory_gb env =
     (case virtual_memory_available env of
        Inl e \<Rightarrow> Inl e
      | Inr avail \<Rightarrow>
          (case int_true_div avail (1024 ^ 3) of
             Inl e \<Rightarrow> Inl e
           | Inr sys_memory \<Rightarrow>
               if TORCH_DEVICE_MODEL env = ''cuda'' \<and> cuda_is_available env then
                 (case cuda_total_memory env of
                    Inl e \<Rightarrow> Inl e
                  | Inr total_memory \<Rightarrow>
                      (case int_true_div total_memory (1024 ^ 3) of
                         Inl e \<Rightarrow> Inl e
                       | Inr gpu_memory \<Rightarrow> Inr (sys_memory, Some gpu_memory)))
               else if TORCH_DEVICE_MODEL env = ''mps'' then
                 Inr (sys_memory, Some (float_mul sys_memory double_0_7))
               else Inr (sys_memory, None)))"

text \<open>
  Lines 51 to 59: the clamp and the device adjustment, applied to the integer that
  \<^verbatim>\<open>math.floor\<close> returned.  Python's \<^verbatim>\<open>//\<close> on integers is \<open>div\<close> on \<open>int\<close>.
\<close>

definition adjust_batch :: "string \<Rightarrow> int \<Rightarrow> int" where
  "adjust_batch device optimal_batch =
     (let min_batch = 8; max_batch = 512;
          batch_size = max min_batch (min optimal_batch max_batch)
      in if device = ''mps'' then min batch_size 64
         else if device = ''cuda'' then (batch_size div 8) * 8
         else batch_size)"

text \<open>
  \<^verbatim>\<open>gpu_memory if gpu_memory else sys_memory\<close> tests the truth value of \<^verbatim>\<open>gpu_memory\<close>:
  \<^verbatim>\<open>None\<close> and \<^verbatim>\<open>0.0\<close> both select the system memory.
\<close>

definition get_batch_size :: "memory_env \<Rightarrow> error + int" where
  "get_batch_size env =
     (case get_available_memory_gb env of
        Inl e \<Rightarrow> Inl e
      | Inr (sys_memory, gpu_memory) \<Rightarrow>
          (let mem_per_sample = double_0_1;
               available_memory =
                 (case gpu_memory of
                    None \<Rightarrow> sys_memory
                  | Some g \<Rightarrow> if truth_value g then g else sys_memory);
               safe_memory = float_mul available_memory double_0_8
           in case math_floor (float_div safe_memory mem_per_sample) of
                Inl e \<Rightarrow> Inl e
              | Inr optimal_batch \<Rightarrow>
                  Inr (adjust_batch (TORCH_DEVICE_MODEL env) optimal_batch)))"

section \<open>Padding to the cache capacity: \<^verbatim>\<open>pad_to_batch_size\<close>\<close>

text \<open>
  A tensor is the list of its slices along dimension 0.  \<^verbatim>\<open>F.pad\<close> with the padding
  \<^verbatim>\<open>(0, 0) * (dim - 1) + (0, pad_size)\<close> leaves every other dimension alone and appends
  \<^verbatim>\<open>pad_size\<close> slices filled with the value 0 after the last slice; \<open>zero_slice\<close> is that
  all-zero slice of the tensor's inner shape.
\<close>

definition pad_to_batch_size :: "'a \<Rightarrow> 'a list \<Rightarrow> int \<Rightarrow> 'a list" where
  "pad_to_batch_size zero_slice tensor batch_size =
     (let current_batch_size = int (length tensor) in
      if current_batch_size \<ge> batch_size then tensor
      else (let pad_size = batch_size - current_batch_size
            in tensor @ replicate (nat pad_size) zero_slice))"

section \<open>Tensor operations used by the decoding loop\<close>

type_synonym token = int

text \<open>
  A vector is a list, a matrix the list of its rows.  \<open>softmax\<close> is \<^verbatim>\<open>F.softmax\<close> over
  one row of logits, \<open>argmax\<close> is \<^verbatim>\<open>torch.argmax\<close> over one row (the index of the first
  maximal entry), and \<open>Max (set row)\<close> is the \<^verbatim>\<open>values\<close> of \<^verbatim>\<open>torch.max\<close> over one row.
\<close>

definition softmax :: "real list \<Rightarrow> real list" where
  "softmax xs = map (\<lambda>x. exp x / sum_list (map exp xs)) xs"

definition argmax :: "real list \<Rightarrow> nat" where
  "argmax xs = length (takeWhile (\<lambda>x. x < Max (set xs)) xs)"

text \<open>
  An elementwise operation on two vectors broadcasts: equal lengths combine position by
  position, a vector of length 1 is expanded to the length of the other, and any other
  pair of lengths is torch's shape error.
\<close>

definition broadcast2 :: "('a \<Rightarrow> 'b \<Rightarrow> 'c) \<Rightarrow> 'a list \<Rightarrow> 'b list \<Rightarrow> error + 'c list" where
  "broadcast2 f xs ys =
     (if length xs = length ys then Inr (map2 f xs ys)
      else if length xs = 1 then Inr (map (f (hd xs)) ys)
      else if length ys = 1 then Inr (map (\<lambda>x. f x (hd ys)) xs)
      else Inl RuntimeError)"

text \<open>The first exception of a sequence of computations ends it.\<close>

fun collect :: "(error + 'a) list \<Rightarrow> error + 'a list" where
  "collect [] = Inr []"
| "collect (r # rs) =
     (case r of
        Inl e \<Rightarrow> Inl e
      | Inr x \<Rightarrow> (case collect rs of Inl e \<Rightarrow> Inl e | Inr xs \<Rightarrow> Inr (x # xs)))"

text \<open>
  \<^verbatim>\<open>scores.masked_fill(all_done, 0)\<close> at line 230 is the out-of-place \<^verbatim>\<open>masked_fill\<close>.
  It broadcasts the tensor and the mask against each other (as \<^verbatim>\<open>torch.where(mask, value,
  tensor)\<close> does) and returns a tensor of the broadcast shape.  At line 230 the tensor
  \<^verbatim>\<open>scores\<close> has shape \<open>[B, 1]\<close> (the \<^verbatim>\<open>unsqueeze(1)\<close> of line 220) and the mask
  \<^verbatim>\<open>all_done\<close> has shape \<open>[B]\<close>.  Shapes are aligned from the last dimension, so the mask
  runs along dimension 1 of the result: the result has shape \<open>[B, B]\<close>, and its entry
  \<open>(i, j)\<close> is 0 where \<open>all_done[j]\<close> holds and \<open>scores[i, 0]\<close> elsewhere.  For \<open>B = 1\<close> this
  is the single masked score.  (The in-place \<^verbatim>\<open>masked_fill_\<close> would raise for \<open>B > 1\<close>,
  since a mask of shape \<open>[B]\<close> does not expand to \<open>[B, 1]\<close>; line 230 calls the
  out-of-place method, and \<^verbatim>\<open>torch.cat\<close> of line 231 accepts its result, which has \<open>B\<close>
  rows.)  \<open>masked_fill\<close> below is this operation for a matrix and a vector mask: each row
  is broadcast against the mask.
\<close>

definition masked_fill :: "real list list \<Rightarrow> bool list \<Rightarrow> real \<Rightarrow> error + real list list" where
  "masked_fill tensor flags v =
     collect (map (\<lambda>row. broadcast2 (\<lambda>x m. if m then v else x) row flags) tensor)"

text \<open>\<^verbatim>\<open>torch.cat([a, b], dim=1)\<close> of two matrices: the rows are joined pairwise.\<close>

definition cat_dim1 :: "'a list list \<Rightarrow> 'a list list \<Rightarrow> error + 'a list list" where
  "cat_dim1 a b = (if length a = length b then Inr (map2 (@) a b) else Inl RuntimeError)"

text \<open>
  Lines 260 to 262 for one row of \<^verbatim>\<open>sequence_scores\<close>.  A tensor division does not
  raise: with no nonzero entry the row sums to 0 and \<open>0 / 0\<close> is \<open>NaN\<close>.
\<close>

definition confidence_of :: "real list \<Rightarrow> confidence" where
  "confidence_of row =
     (let total = sum_list row;
          nonzero = length (filter (\<lambda>x. x \<noteq> 0) row)
      in if nonzero = 0 then NaN else Conf (total / real nonzero))"

section \<open>The collaborators of \<^verbatim>\<open>batch_recognition\<close>\<close>

datatype image = Image (width: int) (pixels: "nat list")

type_synonym lang = "string list option"

text \<open>
  The model, the processor with its tokenizer, the postprocessing functions and the
  settings are not part of the file; they are the fields of \<open>recognition_env\<close>.  The
  decoder keeps a key/value cache between calls: its state \<open>'st\<close> is passed in and
  returned, and \<^verbatim>\<open>_setup_cache\<close> creates it for a declared capacity.  \<open>decoder\<close> returns
  \<^verbatim>\<open>return_dict["logits"][:, -1]\<close>, one row of vocabulary logits per row of its input.
  Pixel values, hidden states and logits are rows of reals.
\<close>

record 'st recognition_env =
  memory :: memory_env
  RECOGNITION_ENCODER_BATCH_DIVISOR :: int
  RECOGNITION_STATIC_CACHE :: bool
  RECOGNITION_MAX_TOKENS :: int
  decoder_start_token_id :: token
  pad_id :: token
  eos_id :: token
  convert_rgb :: "image \<Rightarrow> image"
  processor :: "image list \<Rightarrow> lang list \<Rightarrow> real list list \<times> token list list"
  encoder :: "real list list \<Rightarrow> real list list"
  text_encoder :: "real list list \<Rightarrow> real list list"
  setup_cache :: "int \<Rightarrow> 'st"
  decoder :: "'st \<Rightarrow> token list list \<Rightarrow> real list list \<Rightarrow> int list \<Rightarrow> bool
                \<Rightarrow> real list list \<times> 'st"
  batch_decode :: "token list list \<Rightarrow> string list"
  truncate_repetitions :: "string \<Rightarrow> string"
  contains_math :: "string \<Rightarrow> bool"
  fix_math :: "string \<Rightarrow> string"

section \<open>The decoding loop (lines 200 to 258)\<close>

text \<open>
  The variables of the loop.  \<open>trace\<close> is not a variable of the source: it records, for
  every call of the decoder, the values of \<^verbatim>\<open>preds\<close> (line 217) and of \<^verbatim>\<open>scores\<close> before
  masking (lines 218 to 220), so that statements can speak about the steps of a run.
\<close>

record 'st decoder_state =
  token_count :: int
  inference_token_count :: nat
  batch_decoder_input :: "token list list"
  decoder_position_ids :: "int list"
  batch_predictions :: "token list list"
  sequence_scores :: "real list list option"
  all_done :: "bool list"
  cache :: 'st
  trace :: "(token list \<times> real list) list"

definition step_preds :: "real list list \<Rightarrow> token list" where
  "step_preds logits = map (\<lambda>row. int (argmax row)) logits"

definition step_scores :: "real list list \<Rightarrow> real list" where
  "step_scores logits = map (\<lambda>row. Max (set (softmax row))) logits"

definition unsqueeze1 :: "'a list \<Rightarrow> 'a list list" where
  "unsqueeze1 xs = map (\<lambda>x. [x]) xs"

definition step_done :: "'st recognition_env \<Rightarrow> token list \<Rightarrow> bool list" where
  "step_done env preds = map (\<lambda>p. p = eos_id env \<or> p = pad_id env) preds"

text \<open>
  Lines 238 to 240: \<^verbatim>\<open>batch_predictions[j].append(int(pred))\<close> for every pair of
  \<^verbatim>\<open>zip(preds, all_done)\<close> whose status is false.
\<close>

fun append_predictions :: "token list list \<Rightarrow> (token \<times> bool) list \<Rightarrow> error + token list list" where
  "append_predictions bp [] = Inr bp"
| "append_predictions [] ((pred, status) # rest) =
     (if status then append_predictions [] rest else Inl IndexError)"
| "append_predictions (b # bp) ((pred, status) # rest) =
     (case append_predictions bp rest of
        Inl e \<Rightarrow> Inl e
      | Inr bp' \<Rightarrow> Inr ((if status then b else b @ [pred]) # bp'))"

text \<open>
  Lines 227 to 231.  At the prefill step the scores are stored as they are; at a later
  step they are masked with \<^verbatim>\<open>all_done\<close>, which line 225 has already updated with the
  \<^verbatim>\<open>done\<close> flags of this step, and joined to the stored columns.
\<close>

definition record_scores ::
    "bool \<Rightarrow> real list list option \<Rightarrow> real list \<Rightarrow> bool list \<Rightarrow> error + real list list" where
  "record_scores is_prefill sequence_scores0 scores all_done1 =
     (if is_prefill then Inr (unsqueeze1 scores)
      else (case masked_fill (unsqueeze1 scores) all_done1 0 of
              Inl e \<Rightarrow> Inl e
            | Inr masked \<Rightarrow>
                (case sequence_scores0 of
                   None \<Rightarrow> Inl TypeError
                 | Some stored \<Rightarrow> cat_dim1 stored masked)))"

text \<open>
  One pass through the body of the \<^verbatim>\<open>while\<close> loop, without lines 242 and 243 (they
  are in \<open>decode_loop\<close>).  The result is the new state and whether line 234 left the loop.
  \<open>ctx\<close> is \<^verbatim>\<open>encoder_text_hidden_states\<close>, \<open>current_batch_size\<close> and \<open>batch_size\<close> are the
  variables of these names.
\<close>

definition decode_body ::
    "'st recognition_env \<Rightarrow> real list list \<Rightarrow> nat \<Rightarrow> int \<Rightarrow> 'st decoder_state
       \<Rightarrow> error + (bool \<times> 'st decoder_state)" where
  "decode_body env ctx current_batch_size batch_size s =
     (let is_prefill = (token_count s = 0);
          (all_logits, cache1) =
             decoder env (cache s) (batch_decoder_input s) ctx (decoder_position_ids s) is_prefill;
          position_ids1 =
             map (\<lambda>p. p + 1) (drop (length (decoder_position_ids s) - 1) (decoder_position_ids s));
          logits = take current_batch_size all_logits
      in if [] \<in> set logits then Inl IndexError
         else
          (let preds = step_preds logits;
               scores = step_scores logits;
               done = step_done env preds
           in case broadcast2 (\<or>) (all_done s) done of
                Inl e \<Rightarrow> Inl e
              | Inr all_done1 \<Rightarrow>
                 (case record_scores is_prefill (sequence_scores s) scores all_done1 of
                    Inl e \<Rightarrow> Inl e
                  | Inr sequence_scores1 \<Rightarrow>
                     (let s1 = s\<lparr>decoder_position_ids := position_ids1,
                                  sequence_scores := Some sequence_scores1,
                                  all_done := all_done1,
                                  cache := cache1,
                                  trace := trace s @ [(preds, scores)]\<rparr>
                      in if list_all (\<lambda>d. d) all_done1 then Inr (True, s1)
                         else
                          (case append_predictions (batch_predictions s) (zip preds all_done1) of
                             Inl e \<Rightarrow> Inl e
                           | Inr batch_predictions1 \<Rightarrow>
                              if position_ids1 = [] then Inl RuntimeError
                              else if preds = [] then Inl IndexError
                              else
                                Inr (False,
                                  s1\<lparr>batch_decoder_input :=
                                        (if RECOGNITION_STATIC_CACHE env
                                         then pad_to_batch_size [0] (unsqueeze1 preds) batch_size
                                         else unsqueeze1 preds),
                                      batch_predictions := batch_predictions1,
                                      decoder_position_ids := [Max (set position_ids1)]\<rparr>))))))"

text \<open>The value of \<^verbatim>\<open>logits\<close> (lines 203 to 214, last position) in a pass that starts in \<open>s\<close>.\<close>

definition step_logits ::
    "'st recognition_env \<Rightarrow> real list list \<Rightarrow> nat \<Rightarrow> 'st decoder_state \<Rightarrow> real list list" where
  "step_logits env ctx current_batch_size s =
     take current_batch_size
       (fst (decoder env (cache s) (batch_decoder_input s) ctx (decoder_position_ids s)
               (token_count s = 0)))"

text \<open>
  The \<^verbatim>\<open>while\<close> loop of line 200.  After a pass that did not break, line 242 adds
  \<^verbatim>\<open>inference_token_count\<close> to \<^verbatim>\<open>token_count\<close>, and line 243 sets
  \<^verbatim>\<open>inference_token_count\<close> to the last dimension of \<^verbatim>\<open>preds.unsqueeze(1)\<close>, which is 1.
\<close>

function decode_loop ::
    "'st recognition_env \<Rightarrow> real list list \<Rightarrow> nat \<Rightarrow> int \<Rightarrow> 'st decoder_state
       \<Rightarrow> error + 'st decoder_state" where
  "decode_loop env ctx current_batch_size batch_size s =
     (if token_count s < RECOGNITION_MAX_TOKENS env - 1 then
        (case decode_body env ctx current_batch_size batch_size s of
           Inl e \<Rightarrow> Inl e
         | Inr (left, s1) \<Rightarrow>
             if left then Inr s1
             else decode_loop env ctx current_batch_size batch_size
                    (s1\<lparr>token_count := token_count s + int (inference_token_count s),
                        inference_token_count := 1\<rparr>))
      else Inr s)"
  by pat_completeness auto
termination
  by (relation "measures
        [\<lambda>(env, ctx, current_batch_size, batch_size, s).
            nat (RECOGNITION_MAX_TOKENS env - 1 - token_count s),
         \<lambda>(env, ctx, current_batch_size, batch_size, s).
            if inference_token_count s = 0 then 1 else 0]") auto

declare decode_loop.simps [simp del]

section \<open>One batch: the body of the loop of line 95\<close>

text \<open>
  \<^verbatim>\<open>range(0, n, step)\<close>: a step of 0 raises, a negative step gives no index.  The slice
  \<^verbatim>\<open>xs[i : i + k]\<close> with \<open>0 \<le> i\<close> and \<open>0 < k\<close> is \<open>take k (drop i xs)\<close>.
\<close>

definition py_range :: "nat \<Rightarrow> int \<Rightarrow> error + nat list" where
  "py_range n step =
     (if step = 0 then Inl ValueError
      else if step < 0 then Inr []
      else Inr (map (\<lambda>k. k * nat step) [0..<(n + nat step - 1) div nat step]))"

definition slice :: "'a list \<Rightarrow> nat \<Rightarrow> int \<Rightarrow> 'a list" where
  "slice xs i k = take (nat k) (drop i xs)"

text \<open>
  The rows of a tensor have one shape; the shape of a row is its length.  \<^verbatim>\<open>np.stack\<close>
  and \<^verbatim>\<open>torch.cat\<close> along dimension 0 raise when the arrays they are given differ in
  shape.
\<close>

definition same_shape :: "'a list list \<Rightarrow> bool" where
  "same_shape rows = list_all (\<lambda>row. length row = length (hd rows)) rows"

text \<open>
  Lines 156 to 190: the encoder runs on slices of \<^verbatim>\<open>encoder_batch_size\<close> rows, the
  outputs are joined along dimension 0 by \<^verbatim>\<open>torch.cat\<close> (a \<^verbatim>\<open>RuntimeError\<close> when their rows
  differ in shape; the rows of one output are the rows of a tensor and have one shape)
  and given to the text encoder.  When the loop of line 159 runs no
  pass, \<^verbatim>\<open>encoder_hidden_states\<close> is still \<^verbatim>\<open>None\<close> at line 176.
\<close>

definition encoder_stage :: "'st recognition_env \<Rightarrow> int \<Rightarrow> real list list \<Rightarrow> error + real list list" where
  "encoder_stage env batch_size batch_pixel_values =
     (if RECOGNITION_ENCODER_BATCH_DIVISOR env = 0 then Inl ZeroDivisionError
      else
       (let encoder_batch_size = batch_size div RECOGNITION_ENCODER_BATCH_DIVISOR env + 1
        in case py_range (length batch_pixel_values) encoder_batch_size of
             Inl e \<Rightarrow> Inl e
           | Inr starts \<Rightarrow>
               if starts = [] then Inl AttributeError
               else
                (let encoder_hidden_states =
                       concat (map (\<lambda>z. encoder env (slice batch_pixel_values z encoder_batch_size))
                                 starts)
                 in if same_shape encoder_hidden_states
                    then Inr (text_encoder env encoder_hidden_states)
                    else Inl RuntimeError)))"

definition zero_slice_of :: "real list list \<Rightarrow> real list" where
  "zero_slice_of rows = (case rows of [] \<Rightarrow> [] | r # _ \<Rightarrow> map (\<lambda>_. 0) r)"

text \<open>Line 102: \<^verbatim>\<open>lang and "_math" in lang\<close>, read as a truth value at line 268.\<close>

definition has_math_flag :: "lang \<Rightarrow> bool" where
  "has_math_flag lang = (case lang of None \<Rightarrow> False | Some tags \<Rightarrow> tags \<noteq> [] \<and> ''_math'' \<in> set tags)"

text \<open>
  Lines 110 to 153: the decoder input (start token and language tokens, padded on the
  left with \<^verbatim>\<open>pad_id\<close> to a common length) and the state the loop starts in.
\<close>

definition initial_decoder_input :: "'st recognition_env \<Rightarrow> token list list \<Rightarrow> token list list" where
  "initial_decoder_input env batch_langs =
     (let decoder_input = map (\<lambda>lang. decoder_start_token_id env # lang) batch_langs;
          max_input_length = Max (set (map length decoder_input))
      in map (\<lambda>tokens. replicate (max_input_length - length tokens) (pad_id env) @ tokens)
           decoder_input)"

definition initial_state ::
    "'st recognition_env \<Rightarrow> int \<Rightarrow> nat \<Rightarrow> token list list \<Rightarrow> 'st decoder_state" where
  "initial_state env batch_size current_batch_size decoder_input =
     (let width = length (hd decoder_input) in
      \<lparr>token_count = 0,
       inference_token_count = width,
       batch_decoder_input =
         (if RECOGNITION_STATIC_CACHE env
          then pad_to_batch_size (replicate width 0) decoder_input batch_size
          else decoder_input),
       decoder_position_ids = map int [0..<width],
       batch_predictions = replicate current_batch_size [],
       sequence_scores = None,
       all_done = replicate current_batch_size False,
       cache = setup_cache env batch_size,
       trace = []\<rparr>)"

text \<open>
  Lines 96 to 272 for one batch.  \<^verbatim>\<open>max\<close> of line 113 raises on an empty list;
  \<^verbatim>\<open>np.stack\<close> of line 126 raises on an empty list and on pixel arrays that differ in
  shape; \<^verbatim>\<open>torch.sum\<close> of line 260 raises when the loop ran no pass and
  \<^verbatim>\<open>sequence_scores\<close> is still \<^verbatim>\<open>None\<close>.
\<close>

definition recognize_batch ::
    "'st recognition_env \<Rightarrow> int \<Rightarrow> image list \<Rightarrow> lang list \<Rightarrow> error + (string list \<times> confidence list)" where
  "recognize_batch env batch_size images0 batch_langs0 =
     (let batch_images = map (convert_rgb env) images0;
          has_math = map has_math_flag batch_langs0;
          (batch_pixel_values, batch_langs) = processor env batch_images batch_langs0
      in if batch_langs = [] then Inl ValueError
         else if batch_pixel_values = [] then Inl ValueError
         else if \<not> same_shape batch_pixel_values then Inl ValueError
         else
          (let decoder_input = initial_decoder_input env batch_langs;
               current_batch_size = length batch_pixel_values
           in case encoder_stage env batch_size batch_pixel_values of
                Inl e \<Rightarrow> Inl e
              | Inr hidden \<Rightarrow>
                 (let encoder_text_hidden_states =
                        (if RECOGNITION_STATIC_CACHE env
                         then pad_to_batch_size (zero_slice_of hidden) hidden batch_size
                         else hidden)
                  in case decode_loop env encoder_text_hidden_states current_batch_size batch_size
                            (initial_state env batch_size current_batch_size decoder_input) of
                       Inl e \<Rightarrow> Inl e
                     | Inr s \<Rightarrow>
                        (case sequence_scores s of
                           None \<Rightarrow> Inl TypeError
                         | Some rows \<Rightarrow>
                            (let detected_text =
                                   map (truncate_repetitions env) (batch_decode env (batch_predictions s))
                             in Inr (map (\<lambda>(text, math).
                                            if math \<and> contains_math env text then fix_math env text
                                            else text)
                                       (zip detected_text has_math),
                                     map confidence_of rows))))))"

section \<open>\<^verbatim>\<open>batch_recognition\<close>\<close>

text \<open>
  Line 88: \<^verbatim>\<open>sorted\<close> is stable, as \<open>sort_key\<close> is.  Lines 95 to 101: the slices of the
  sorted images and of \<^verbatim>\<open>languages\<close> that one pass of the loop works on.
\<close>

definition sorted_pairs :: "image list \<Rightarrow> (nat \<times> image) list" where
  "sorted_pairs images = sort_key (\<lambda>x. width (snd x)) (enumerate 0 images)"

definition batch_inputs ::
    "image list \<Rightarrow> lang list \<Rightarrow> int \<Rightarrow> error + (image list \<times> lang list) list" where
  "batch_inputs images0 languages batch_size =
     (let images = map snd (sorted_pairs images0)
      in case py_range (length images) batch_size of
           Inl e \<Rightarrow> Inl e
         | Inr starts \<Rightarrow>
             Inr (map (\<lambda>i. (slice images i batch_size, slice languages i batch_size)) starts))"

text \<open>
  Lines 93 to 272: \<^verbatim>\<open>output_text\<close> and \<^verbatim>\<open>confidences\<close> after the loop of line 95, in
  the order of the sorted images.  The first batch that raises ends the loop.
\<close>

definition batch_outputs ::
    "'st recognition_env \<Rightarrow> image list \<Rightarrow> lang list \<Rightarrow> int
       \<Rightarrow> error + (string list \<times> confidence list)" where
  "batch_outputs env images0 languages batch_size =
     (case batch_inputs images0 languages batch_size of
        Inl e \<Rightarrow> Inl e
      | Inr batches \<Rightarrow>
         (case collect (map (\<lambda>(batch_images, batch_langs).
                               recognize_batch env batch_size batch_images batch_langs)
                          batches) of
            Inl e \<Rightarrow> Inl e
          | Inr results \<Rightarrow> Inr (concat (map fst results), concat (map snd results))))"

text \<open>Lines 276 to 279: the pairs are sorted by their index and the index is dropped.\<close>

definition restore_order :: "nat list \<Rightarrow> 'a list \<Rightarrow> 'a list" where
  "restore_order indices output = map snd (sort_key fst (zip indices output))"

text \<open>
  \<^verbatim>\<open>batch_recognition\<close>: the assertion of line 79, the empty input of line 81, the batch
  size of line 84, the batches, and the final order.
\<close>

definition batch_recognition ::
    "'st recognition_env \<Rightarrow> image list \<Rightarrow> lang list \<Rightarrow> int option
       \<Rightarrow> error + (string list \<times> confidence list)" where
  "batch_recognition env images0 languages batch_size0 =
     (if length images0 = length languages then
        (if length images0 = 0 then Inr ([], [])
         else
          (case (case batch_size0 of None \<Rightarrow> get_batch_size (memory env) | Some b \<Rightarrow> Inr b) of
             Inl e \<Rightarrow> Inl e
           | Inr batch_size \<Rightarrow>
              (let indices = map fst (sorted_pairs images0)
               in case batch_outputs env images0 languages batch_size of
                    Inl e \<Rightarrow> Inl e
                  | Inr (output_text, confidences) \<Rightarrow>
                      Inr (restore_order indices output_text,
                           restore_order indices confidences))))
      else Inl AssertionError)"

section \<open>Scripted collaborators for concrete runs\<close>

text \<open>
  A vocabulary of four tokens: 0 is a letter, 1 the pad marker, 2 the end marker and 3
  the start token.  The scripted decoder counts its calls in its state; at call \<open>n\<close> it
  answers row \<open>j\<close> of its input with the logits \<open>script n j\<close>.  The processor gives every
  image one pixel row and no language tokens; the encoder gives every pixel row one
  hidden row, which the text encoder passes on; the tokenizer decodes token 0 to the
  letter \<open>a\<close>.
\<close>

definition letter_logits :: "real list" where
  "letter_logits = [0, 0, 0, 0]"

definition eos_logits :: "real list" where
  "eos_logits = [0, 0, ln 2, 0]"

definition env_of_script :: "(nat \<Rightarrow> nat \<Rightarrow> real list) \<Rightarrow> nat recognition_env" where
  "env_of_script script =
     \<lparr>memory = \<lparr>TORCH_DEVICE_MODEL = ''cpu'', virtual_memory_available = Inr 0,
                 cuda_is_available = False, cuda_total_memory = Inr 0\<rparr>,
      RECOGNITION_ENCODER_BATCH_DIVISOR = 4,
      RECOGNITION_STATIC_CACHE = False,
      RECOGNITION_MAX_TOKENS = 175,
      decoder_start_token_id = 3,
      pad_id = 1,
      eos_id = 2,
      convert_rgb = (\<lambda>image. image),
      processor = (\<lambda>images langs. (map (\<lambda>_. [0]) images, map (\<lambda>_. []) images)),
      encoder = map (\<lambda>_. [0]),
      text_encoder = (\<lambda>x. x),
      setup_cache = (\<lambda>_. 0),
      decoder = (\<lambda>calls input_ids ctx position_ids prefill.
                   (map (script calls) [0..<length input_ids], Suc calls)),
      batch_decode = map (map (\<lambda>t. if t = 0 then CHR ''a'' else CHR ''?'')),
      truncate_repetitions = (\<lambda>text. text),
      contains_math = (\<lambda>_. False),
      fix_math = (\<lambda>text. text)\<rparr>"

text \<open>One sample: a letter at the prefill step, the end marker at the second step.\<close>

definition script_one :: "nat \<Rightarrow> nat \<Rightarrow> real list" where
  "script_one calls j = (if calls = 1 then eos_logits else letter_logits)"

text \<open>
  Two samples: sample 0 predicts the end marker at the prefill step; sample 1 predicts
  two letters and the end marker at the third step.
\<close>

definition script_two :: "nat \<Rightarrow> nat \<Rightarrow> real list" where
  "script_two calls j =
     (if (calls = 0 \<and> j = 0) \<or> (calls = 2 \<and> j = 1) then eos_logits else letter_logits)"

section \<open>The shape of the loop state\<close>

text \<open>
  The shapes that lines 123 to 153 establish and every pass keeps when the decoder
  answers each row of its input: one done flag and one token sequence per sample, a
  decoder input with at least one row per sample, position ids, and, once the prefill
  step is over, one score row per sample.
\<close>

definition loop_shape :: "nat \<Rightarrow> 'st decoder_state \<Rightarrow> bool" where
  "loop_shape cbs s \<longleftrightarrow>
     length (all_done s) = cbs \<and> length (batch_predictions s) = cbs
     \<and> cbs \<le> length (batch_decoder_input s) \<and> decoder_position_ids s \<noteq> [] \<and> 1 \<le> cbs
     \<and> (token_count s = 0 \<or> (\<exists>rows. sequence_scores s = Some rows \<and> length rows = cbs))"

section \<open>Results about the memory budget\<close>

subsection \<open>The clamp and the device adjustment\<close>

lemma adjust_batch_bounds:
  "8 \<le> adjust_batch device n \<and> adjust_batch device n \<le> 512"
  unfolding adjust_batch_def Let_def by auto

lemma adjust_batch_cuda: "8 dvd adjust_batch ''cuda'' n"
  unfolding adjust_batch_def Let_def by simp

lemma adjust_batch_mps: "adjust_batch ''mps'' n \<le> 64"
  unfolding adjust_batch_def Let_def by simp

subsection \<open>Rounding and overflow\<close>

text \<open>
  A nonnegative result is rounded to a nonnegative double that is at most twice the
  result, and a result of at most \<open>2 ^ 990\<close> does not overflow.
\<close>

lemma round_ties_even_bounds:
  assumes "0 \<le> y"
  shows "0 \<le> round_ties_even y" and "of_int (round_ties_even y) \<le> y + 1 / 2"
    and "y < 1 / 2 \<Longrightarrow> round_ties_even y = 0"
proof -
  have f: "0 \<le> \<lfloor>y\<rfloor>" using assms by simp
  then show "0 \<le> round_ties_even y" by (simp add: round_ties_even_def Let_def)
  show "of_int (round_ties_even y) \<le> y + 1 / 2"
  proof (cases "y - of_int \<lfloor>y\<rfloor> < 1 / 2")
    case True
    then have "round_ties_even y = \<lfloor>y\<rfloor>" by (simp add: round_ties_even_def Let_def)
    moreover have "of_int \<lfloor>y\<rfloor> \<le> y" by simp
    ultimately show ?thesis by linarith
  next
    case False
    then have "round_ties_even y \<le> \<lfloor>y\<rfloor> + 1" by (simp add: round_ties_even_def Let_def)
    then have "real_of_int (round_ties_even y) \<le> of_int \<lfloor>y\<rfloor> + 1"
      by (metis of_int_1 of_int_add of_int_le_iff)
    with False show ?thesis by linarith
  qed
  assume "y < 1 / 2"
  with assms have "\<lfloor>y\<rfloor> = 0" by (simp add: floor_eq_iff)
  with \<open>y < 1 / 2\<close> show "round_ties_even y = 0" by (simp add: round_ties_even_def Let_def)
qed

lemma ulp_pos: "0 < ulp x"
  by (simp add: ulp_def)

lemma round_double_bounds:
  assumes "0 \<le> x"
  shows "0 \<le> round_double x" and "round_double x \<le> 2 * x"
proof -
  let ?u = "ulp x" and ?y = "x / ulp x"
  have u: "0 < ?u" by (rule ulp_pos)
  have y: "0 \<le> ?y" using assms u by simp
  note r = round_ties_even_bounds [OF y]
  show "0 \<le> round_double x"
    using assms u r(1) by (simp add: round_double_def sgn_if)
  show "round_double x \<le> 2 * x"
  proof (cases "x = 0")
    case True
    then show ?thesis by (simp add: round_double_def)
  next
    case False
    with assms have x: "0 < x" by simp
    then have rd: "round_double x = of_int (round_ties_even ?y) * ?u"
      by (simp add: round_double_def)
    show ?thesis
    proof (cases "?y < 1 / 2")
      case True
      from r(3) [OF True] rd have "round_double x = 0" by simp
      with x show ?thesis by simp
    next
      case False
      then have h: "?u \<le> 2 * x" using u by (simp add: field_simps)
      have "of_int (round_ties_even ?y) * ?u \<le> (?y + 1 / 2) * ?u"
        using r(2) u by (intro mult_right_mono) simp_all
      also have "\<dots> = x + ?u / 2" using u by (simp add: field_simps)
      also have "\<dots> \<le> 2 * x" using h by simp
      finally show ?thesis using rd by simp
    qed
  qed
qed

lemma threshold_large: "2 ^ 990 < overflow_threshold"
proof -
  have "(2::real) ^ 970 \<le> 2 ^ 990" by simp
  then have "(2::real) ^ 990 + 2 ^ 970 \<le> 2 * 2 ^ 990" by simp
  also have "\<dots> = 2 ^ 991" by simp
  also have "\<dots> < (2::real) ^ 1024" by simp
  finally show ?thesis by (simp add: overflow_threshold_def)
qed

lemma to_double_small:
  assumes "0 \<le> x" and "x \<le> 2 ^ 990"
  shows "\<exists>v. to_double x = Finite v \<and> 0 \<le> v \<and> v \<le> 2 * x"
  using assms threshold_large round_double_bounds [OF assms(1)]
  by (simp add: to_double_def)

lemma int_true_div_small:
  assumes "real a / real b \<le> 2 ^ 990"
  shows "\<exists>v. int_true_div a b = Inr (Finite v) \<and> 0 \<le> v \<and> v \<le> 2 * (real a / real b)"
proof -
  have "0 \<le> real a / real b" by simp
  from to_double_small [OF this assms] show ?thesis by (auto simp: int_true_div_def)
qed

subsection \<open>The exceptions of the arithmetic\<close>

lemma int_true_div_error: "int_true_div a b = Inl e \<Longrightarrow> e = OverflowError"
  by (auto simp: int_true_div_def split: double.splits)

lemma math_floor_error: "math_floor x = Inl e \<Longrightarrow> e = OverflowError"
  by (auto simp: math_floor_def split: double.splits)

lemma get_batch_size_Inr:
  "get_batch_size env = Inr b \<Longrightarrow> \<exists>n. b = adjust_batch (TORCH_DEVICE_MODEL env) n"
  unfolding get_batch_size_def Let_def
  by (auto split: sum.splits prod.splits)

lemma get_batch_size_Inl:
  assumes "virtual_memory_available env = Inr m" and "cuda_total_memory env = Inr g"
    and "get_batch_size env = Inl e"
  shows "e = OverflowError"
  using assms unfolding get_batch_size_def get_available_memory_gb_def Let_def
  by (auto split: sum.splits prod.splits if_splits dest: int_true_div_error math_floor_error)

subsection \<open>Readings of at most \<open>2 ^ 1000\<close> bytes\<close>

lemma gb_small:
  assumes "m \<le> 2 ^ 1000"
  shows "real m / real (1024 ^ 3) \<le> 2 ^ 970"
proof -
  have "real m \<le> 2 ^ 1000" using assms by (metis of_nat_le_iff of_nat_numeral of_nat_power)
  also have "\<dots> = (2::real) ^ 970 * 2 ^ 30" by (simp flip: power_add)
  finally have "real m / 2 ^ 30 \<le> 2 ^ 970" by (simp add: field_simps)
  moreover have "real (1024 ^ 3) = 2 ^ 30" by simp
  ultimately show ?thesis by simp
qed

lemma const_bounds:
  "0 < double_0_7" "double_0_7 \<le> 1" "0 < double_0_8" "double_0_8 \<le> 1"
  "0 < double_0_1" "1 / double_0_1 \<le> 16"
  by (simp_all add: double_0_7_def double_0_8_def double_0_1_def)

lemma budget_returns:
  assumes "0 \<le> a" and "a \<le> 2 ^ 972"
  shows "\<exists>n. math_floor (float_div (float_mul (Finite a) double_0_8) double_0_1) = Inr n"
proof -
  have "a * double_0_8 \<le> 2 ^ 972 * 1"
    using assms const_bounds by (intro mult_mono) simp_all
  also have "\<dots> \<le> (2::real) ^ 990" by simp
  finally have le: "a * double_0_8 \<le> 2 ^ 990" .
  have "0 \<le> a * double_0_8" using assms(1) const_bounds by simp
  from to_double_small [OF this le] obtain s where
    s: "to_double (a * double_0_8) = Finite s" "0 \<le> s" "s \<le> 2 * (a * double_0_8)" by blast
  have "a * double_0_8 \<le> 2 ^ 972" using \<open>a * double_0_8 \<le> 2 ^ 972 * 1\<close> by simp
  with s(3) have s973: "s \<le> 2 ^ 973" by simp
  have "s / double_0_1 = s * (1 / double_0_1)" by simp
  also have "\<dots> \<le> 2 ^ 973 * 16"
    using s(2) s973 const_bounds by (intro mult_mono) simp_all
  also have "\<dots> = (2::real) ^ 977" by simp
  also have "\<dots> \<le> (2::real) ^ 990" by simp
  finally have q: "s / double_0_1 \<le> 2 ^ 990" .
  have "0 \<le> s / double_0_1" using s(2) const_bounds by simp
  from to_double_small [OF this q] obtain r where "to_double (s / double_0_1) = Finite r" by blast
  with s(1) show ?thesis by (simp add: float_mul_def float_div_def math_floor_def)
qed

lemma int_true_div_gb:
  assumes "m \<le> 2 ^ 1000"
  shows "\<exists>v. int_true_div m (1024 ^ 3) = Inr (Finite v) \<and> 0 \<le> v \<and> v \<le> 2 ^ 971"
proof -
  have le: "real m / real (1024 ^ 3) \<le> 2 ^ 970" by (rule gb_small [OF assms])
  also have "\<dots> \<le> (2::real) ^ 990" by simp
  finally have "real m / real (1024 ^ 3) \<le> 2 ^ 990" .
  from int_true_div_small [OF this] obtain v where
    v: "int_true_div m (1024 ^ 3) = Inr (Finite v)" "0 \<le> v" "v \<le> 2 * (real m / real (1024 ^ 3))"
    by blast
  from v(3) le have "v \<le> 2 * 2 ^ 970" by linarith
  also have "\<dots> = (2::real) ^ 971" by simp
  finally show ?thesis using v(1,2) by blast
qed

lemma float_mul_0_7:
  assumes "0 \<le> v" and "v \<le> 2 ^ 971"
  shows "\<exists>w. float_mul (Finite v) double_0_7 = Finite w \<and> 0 \<le> w \<and> w \<le> 2 ^ 972"
proof -
  have "v * double_0_7 \<le> 2 ^ 971 * 1"
    using assms const_bounds by (intro mult_mono) simp_all
  then have le: "v * double_0_7 \<le> 2 ^ 971" by simp
  also have "\<dots> \<le> (2::real) ^ 990" by simp
  finally have "v * double_0_7 \<le> 2 ^ 990" .
  moreover have "0 \<le> v * double_0_7" using assms(1) const_bounds by simp
  ultimately obtain w where w: "to_double (v * double_0_7) = Finite w" "0 \<le> w"
    "w \<le> 2 * (v * double_0_7)" using to_double_small by blast
  from w(3) le have "w \<le> 2 * 2 ^ 971" by linarith
  also have "\<dots> = (2::real) ^ 972" by simp
  finally show ?thesis using w(1,2) by (auto simp: float_mul_def)
qed

lemma get_batch_size_returns:
  assumes m: "virtual_memory_available env = Inr m" and g: "cuda_total_memory env = Inr g"
    and ms: "m \<le> 2 ^ 1000" and gs: "g \<le> 2 ^ 1000"
  shows "\<exists>b. get_batch_size env = Inr b"
proof -
  from int_true_div_gb [OF ms] obtain v where
    sys: "int_true_div m (1024 ^ 3) = Inr (Finite v)" and v: "0 \<le> v" "v \<le> 2 ^ 971" by blast
  from int_true_div_gb [OF gs] obtain w where
    gpu: "int_true_div g (1024 ^ 3) = Inr (Finite w)" and w: "0 \<le> w" "w \<le> 2 ^ 971" by blast
  from float_mul_0_7 [OF v] obtain u where
    mps: "float_mul (Finite v) double_0_7 = Finite u" and u: "0 \<le> u" "u \<le> 2 ^ 972" by blast
  have "(2::real) ^ 971 \<le> 2 ^ 972" by simp
  with v(2) w(2) have v972: "v \<le> 2 ^ 972" and w972: "w \<le> 2 ^ 972" by linarith+
  from budget_returns [OF v(1) v972] obtain nv where
    nv: "math_floor (float_div (float_mul (Finite v) double_0_8) double_0_1) = Inr nv" by blast
  from budget_returns [OF w(1) w972] obtain nw where
    nw: "math_floor (float_div (float_mul (Finite w) double_0_8) double_0_1) = Inr nw" by blast
  from budget_returns [OF u] obtain nu where
    nu: "math_floor (float_div (float_mul (Finite u) double_0_8) double_0_1) = Inr nu" by blast
  show ?thesis
    unfolding get_batch_size_def get_available_memory_gb_def Let_def
    using m g sys gpu mps nv nw nu by (auto simp: truth_value_def)
qed

subsection \<open>Two readings evaluated\<close>

text \<open>
  A double \<open>x\<close> with \<open>2 ^ k \<le> x < 2 ^ (k + 1)\<close> has the unit in the last place
  \<open>2 ^ (k - 52)\<close>.  With 5771362304 bytes (5.375 GB) of system memory on the device
  \<open>cpu\<close>, \<^verbatim>\<open>safe_memory\<close> is the double 4.3, its quotient by the double 0.1 is the
  double below 43, and the batch size is 42.  With 46170898432 bytes (43 GB) on the
  device \<open>cuda\<close> the quotient is the double below 344, the floor is 343, and the batch
  size is 336.
\<close>

lemma ulp_eq:
  assumes "2 powi k \<le> x" and "x < 2 powi (k + 1)" and "- 1022 \<le> k"
  shows "ulp x = 2 powi (k - 52)"
proof -
  have "(0::real) < 2 powi k" by simp
  with assms(1) have x: "0 < x" by linarith
  have "2 powr (of_int k) = (2::real) powi k" "2 powr (of_int k + 1) = (2::real) powi (k + 1)"
    using powr_real_of_int' [of 2 k] powr_real_of_int' [of 2 "k + 1"] by simp_all
  with assms(1,2) x have "\<lfloor>log 2 x\<rfloor> = k"
    by (simp add: floor_log_eq_powr_iff)
  with x assms(3) show ?thesis by (simp add: ulp_def max_def)
qed

lemma round_double_eq:
  assumes "2 powi k \<le> x" and "x < 2 powi (k + 1)" and "- 1022 \<le> k" and "k \<le> 52"
  shows "round_double x = of_int (round_ties_even (x * 2 ^ nat (52 - k))) / 2 ^ nat (52 - k)"
proof -
  have "(0::real) < 2 powi k" by simp
  with assms(1) have x: "0 < x" by linarith
  have "(2::real) powi (k - 52) = 1 / 2 ^ nat (52 - k)"
    using assms(4) by (simp add: power_int_def field_simps)
  with x ulp_eq [OF assms(1-3)] show ?thesis by (simp add: round_double_def)
qed

lemma gb_of_5771362304: "int_true_div 5771362304 (1024 ^ 3) = Inr (Finite (43 / 8))"
proof -
  have "round_double (43 / 8) = 43 / 8"
    by (subst round_double_eq [where k = 2]) (simp_all add: round_ties_even_def Let_def power_int_def)
  then show ?thesis
    by (simp add: int_true_div_def to_double_def overflow_threshold_def)
qed

lemma safe_of_5_375: "float_mul (Finite (43 / 8)) double_0_8 = Finite (4841369599423283 / 2 ^ 50)"
proof -
  have "round_double (43 / 8 * double_0_8) = 4841369599423283 / 2 ^ 50"
    by (subst round_double_eq [where k = 2])
      (simp_all add: round_ties_even_def Let_def power_int_def double_0_8_def)
  then show ?thesis
    by (simp add: float_mul_def to_double_def overflow_threshold_def double_0_8_def)
qed


lemma samples_of_4_3: "float_div (Finite (4841369599423283 / 2 ^ 50)) double_0_1
    = Finite (6051711999279103 / 2 ^ 47)"
proof -
  have "round_double (4841369599423283 / 2 ^ 50 / double_0_1) = 6051711999279103 / 2 ^ 47"
    by (subst round_double_eq [where k = 5])
      (simp_all add: round_ties_even_def Let_def power_int_def double_0_1_def)
  then show ?thesis
    by (simp add: float_div_def to_double_def overflow_threshold_def double_0_1_def)
qed

lemma get_batch_size_cpu_example:
  "get_batch_size \<lparr>TORCH_DEVICE_MODEL = ''cpu'', virtual_memory_available = Inr 5771362304,
      cuda_is_available = False, cuda_total_memory = Inr 0\<rparr> = Inr 42"
proof -
  have "math_floor (float_div (float_mul (Finite (43 / 8)) double_0_8) double_0_1) = Inr 42"
    by (simp only: safe_of_5_375 samples_of_4_3) (simp add: math_floor_def)
  then show ?thesis
    by (simp add: get_batch_size_def get_available_memory_gb_def gb_of_5771362304 [simplified] adjust_batch_def)
qed

lemma gb_of_46170898432: "int_true_div 46170898432 (1024 ^ 3) = Inr (Finite 43)"
proof -
  have "round_double 43 = 43"
    by (subst round_double_eq [where k = 5]) (simp_all add: round_ties_even_def Let_def power_int_def)
  then show ?thesis
    by (simp add: int_true_div_def to_double_def overflow_threshold_def)
qed

lemma safe_of_43: "float_mul (Finite 43) double_0_8 = Finite (4841369599423283 / 2 ^ 47)"
proof -
  have "round_double (43 * double_0_8) = 4841369599423283 / 2 ^ 47"
    by (subst round_double_eq [where k = 5])
      (simp_all add: round_ties_even_def Let_def power_int_def double_0_8_def)
  then show ?thesis
    by (simp add: float_mul_def to_double_def overflow_threshold_def double_0_8_def)
qed

lemma samples_of_34_4: "float_div (Finite (4841369599423283 / 2 ^ 47)) double_0_1
    = Finite (6051711999279103 / 2 ^ 44)"
proof -
  have "round_double (4841369599423283 / 2 ^ 47 / double_0_1) = 6051711999279103 / 2 ^ 44"
    by (subst round_double_eq [where k = 8])
      (simp_all add: round_ties_even_def Let_def power_int_def double_0_1_def)
  then show ?thesis
    by (simp add: float_div_def to_double_def overflow_threshold_def double_0_1_def)
qed

lemma get_batch_size_cuda_example:
  "get_batch_size \<lparr>TORCH_DEVICE_MODEL = ''cuda'', virtual_memory_available = Inr 46170898432,
      cuda_is_available = True, cuda_total_memory = Inr 46170898432\<rparr> = Inr 336"
proof -
  have "math_floor (float_div (float_mul (Finite 43) double_0_8) double_0_1) = Inr 343"
    by (simp only: safe_of_43 samples_of_34_4) (simp add: math_floor_def)
  then show ?thesis
    by (simp add: get_batch_size_def get_available_memory_gb_def gb_of_46170898432 [simplified] adjust_batch_def
        truth_value_def)
qed

subsection \<open>The range of the batch size\<close>

text \<open>
  Claim C6 says that \<open>get_batch_size\<close> returns an integer between 8 and 512 for every
  memory reading, arbitrarily large readings included.  With a reading of \<open>10 ^ 330\<close>
  bytes the quotient of line 19 is too large for a double: the division raises
  \<^verbatim>\<open>OverflowError\<close> and \<open>get_batch_size\<close> returns no batch size.
\<close>

theorem get_batch_size_overflow_counterexample:
  "get_batch_size \<lparr>TORCH_DEVICE_MODEL = ''cpu'', virtual_memory_available = Inr (10 ^ 330),
      cuda_is_available = False, cuda_total_memory = Inr 0\<rparr> = Inl OverflowError"
  by (simp add: get_batch_size_def get_available_memory_gb_def int_true_div_def to_double_def
      overflow_threshold_def)

text \<open>
  Claim C6, amended.  When the memory queries return their readings, whatever the
  readings (0 included) and whatever the device setting: every batch size that
  \<open>get_batch_size\<close> returns is an integer between 8 and 512, a multiple of 8 on the device
  \<open>cuda\<close> and at most 64 on the device \<open>mps\<close>; the only exception it raises is
  \<^verbatim>\<open>OverflowError\<close>; and it returns a batch size whenever both readings are at most
  \<open>2 ^ 1000\<close> bytes.
\<close>

theorem get_batch_size_range_unless_overflow:
  assumes "virtual_memory_available env = Inr m" and "cuda_total_memory env = Inr g"
  shows "(\<forall>b. get_batch_size env = Inr b \<longrightarrow>
            8 \<le> b \<and> b \<le> 512
            \<and> (TORCH_DEVICE_MODEL env = ''cuda'' \<longrightarrow> 8 dvd b)
            \<and> (TORCH_DEVICE_MODEL env = ''mps'' \<longrightarrow> b \<le> 64))
       \<and> (\<forall>e. get_batch_size env = Inl e \<longrightarrow> e = OverflowError)
       \<and> (m \<le> 2 ^ 1000 \<and> g \<le> 2 ^ 1000 \<longrightarrow> (\<exists>b. get_batch_size env = Inr b))"
proof (intro conjI allI impI)
  fix b assume b: "get_batch_size env = Inr b"
  from get_batch_size_Inr [OF b] obtain n
    where n: "b = adjust_batch (TORCH_DEVICE_MODEL env) n" ..
  show "8 \<le> b" and "b \<le> 512" using adjust_batch_bounds n by blast+
  show "8 dvd b" if "TORCH_DEVICE_MODEL env = ''cuda''"
    using that n adjust_batch_cuda by simp
  show "b \<le> 64" if "TORCH_DEVICE_MODEL env = ''mps''"
    using that n adjust_batch_mps by simp
next
  fix e assume "get_batch_size env = Inl e"
  with assms show "e = OverflowError" by (rule get_batch_size_Inl)
next
  assume "m \<le> 2 ^ 1000 \<and> g \<le> 2 ^ 1000"
  with assms show "\<exists>b. get_batch_size env = Inr b"
    by (blast intro: get_batch_size_returns)
qed

theorem get_batch_size_range_unless_overflow_witness:
  "\<exists>b. get_batch_size \<lparr>TORCH_DEVICE_MODEL = ''cuda'', virtual_memory_available = Inr 0,
            cuda_is_available = True, cuda_total_memory = Inr (10 ^ 15)\<rparr> = Inr b
       \<and> 8 \<le> b \<and> b \<le> 512 \<and> 8 dvd b"
  using get_batch_size_range_unless_overflow
    [of "\<lparr>TORCH_DEVICE_MODEL = ''cuda'', virtual_memory_available = Inr 0,
          cuda_is_available = True, cuda_total_memory = Inr (10 ^ 15)\<rparr>" 0 "10 ^ 15"]
  by auto

subsection \<open>A failing memory query\<close>

text \<open>
  Claim C7 says that a failing memory query makes \<open>get_batch_size\<close> fall back to 8.
  The source has no handler around the queries: with \<^verbatim>\<open>psutil.virtual_memory()\<close>
  raising, \<open>get_batch_size\<close> raises the same exception and returns no batch size.
\<close>

theorem get_batch_size_query_fails_counterexample:
  "get_batch_size \<lparr>TORCH_DEVICE_MODEL = ''cpu'', virtual_memory_available = Inl OSError,
      cuda_is_available = False, cuda_total_memory = Inr 0\<rparr> = Inl OSError
   \<and> get_batch_size \<lparr>TORCH_DEVICE_MODEL = ''cpu'', virtual_memory_available = Inl OSError,
      cuda_is_available = False, cuda_total_memory = Inr 0\<rparr> \<noteq> Inr 8"
  by (simp add: get_batch_size_def get_available_memory_gb_def)

text \<open>
  Claim C7, amended.  When a memory query fails, \<open>get_batch_size\<close> fails and there is no
  fallback value.  A failure of the query of the system memory is raised as it is.  The
  query of the device memory is made on the device \<open>cuda\<close> with cuda available, after the
  division of line 19: its failure is raised as it is unless that division has already
  raised \<^verbatim>\<open>OverflowError\<close>, which it does for no reading below \<open>2 ^ 1000\<close> bytes.
\<close>

theorem get_batch_size_propagates_failure:
  "(virtual_memory_available env = Inl e \<longrightarrow> get_batch_size env = Inl e)
   \<and> (virtual_memory_available env = Inr m \<and> TORCH_DEVICE_MODEL env = ''cuda''
        \<and> cuda_is_available env \<and> cuda_total_memory env = Inl e
      \<longrightarrow> get_batch_size env
            = Inl (if overflow_threshold \<le> real m / real (1024 ^ 3) then OverflowError else e))"
  by (simp add: get_batch_size_def get_available_memory_gb_def int_true_div_def to_double_def)

theorem get_batch_size_propagates_failure_witness:
  "get_batch_size \<lparr>TORCH_DEVICE_MODEL = ''cuda'', virtual_memory_available = Inr 0,
      cuda_is_available = True, cuda_total_memory = Inl RuntimeError\<rparr> = Inl RuntimeError"
  using get_batch_size_propagates_failure
    [of "\<lparr>TORCH_DEVICE_MODEL = ''cuda'', virtual_memory_available = Inr 0,
          cuda_is_available = True, cuda_total_memory = Inl RuntimeError\<rparr>" RuntimeError 0]
  by (simp add: overflow_threshold_def)

section \<open>Results about padding\<close>

text \<open>
  Claim C9.  For every tensor \<open>t\<close> with \<open>n\<close> slices along dimension 0 and every declared
  capacity \<open>b\<close>, the first \<open>n\<close> slices of \<open>pad_to_batch_size t b\<close> are \<open>t\<close> itself; what
  follows them is the padding, \<open>b - n\<close> all-zero slices (none when \<open>b \<le> n\<close>).
\<close>

theorem pad_then_truncate:
  "take (length t) (pad_to_batch_size z t b) = t
   \<and> drop (length t) (pad_to_batch_size z t b) = replicate (nat (b - int (length t))) z"
  by (simp add: pad_to_batch_size_def Let_def)

section \<open>Results about the batch planner\<close>

text \<open>
  Claim C1 asks that every image travels with the language tags the caller gave for it.
  Line 88 sorts the images only; line 101 slices \<^verbatim>\<open>languages\<close>, which is still in the
  caller's order, at the positions of the sorted images.  For three images of widths 50,
  10 and 30 with the tags \<open>en\<close>, \<open>fr\<close> and \<open>de\<close> and a batch size of 2, the sorted order is
  the images 1, 2, 0, and the first batch pairs image 1 (width 10, tags \<open>fr\<close>) with \<open>en\<close>
  and image 2 (width 30, tags \<open>de\<close>) with \<open>fr\<close>; the second pairs image 0 with \<open>de\<close>.
\<close>

theorem batch_inputs_tags_by_position:
  "map fst (sorted_pairs [Image 50 [0], Image 10 [1], Image 30 [2]]) = [1, 2, 0]
   \<and> batch_inputs [Image 50 [0], Image 10 [1], Image 30 [2]]
        [Some [''en''], Some [''fr''], Some [''de'']] 2
      = Inr [([Image 10 [1], Image 30 [2]], [Some [''en''], Some [''fr'']]),
             ([Image 50 [0]], [Some [''de'']])]"
  by (simp add: batch_inputs_def sorted_pairs_def py_range_def slice_def enumerate_eq_zip upt_rec)

section \<open>Helper facts about the tensor operations and one pass of the loop\<close>

lemma sum_list_exp_pos: "xs \<noteq> [] \<Longrightarrow> 0 < sum_list (map exp (xs :: real list))"
proof (cases xs)
  case Nil
  assume "xs \<noteq> []"
  with Nil show ?thesis by simp
next
  case (Cons a as)
  have "0 \<le> sum_list (map exp as)" by (rule sum_list_nonneg) auto
  moreover have "0 < exp a" by simp
  ultimately show ?thesis using Cons by (simp add: add_pos_nonneg)
qed

lemma softmax_pos: "x \<in> set (softmax xs) \<Longrightarrow> 0 < x"
proof -
  assume x: "x \<in> set (softmax xs)"
  then have "xs \<noteq> []" by (auto simp: softmax_def)
  then have "0 < sum_list (map exp xs)" by (rule sum_list_exp_pos)
  with x show ?thesis by (auto simp: softmax_def)
qed

lemma max_softmax_pos: "xs \<noteq> [] \<Longrightarrow> 0 < Max (set (softmax xs))"
proof -
  assume "xs \<noteq> []"
  then have "set (softmax xs) \<noteq> {}" by (simp add: softmax_def)
  then have "Max (set (softmax xs)) \<in> set (softmax xs)" by (intro Max_in) simp_all
  then show ?thesis by (rule softmax_pos)
qed

lemma step_scores_pos: "[] \<notin> set logits \<Longrightarrow> x \<in> set (step_scores logits) \<Longrightarrow> 0 < x"
  by (auto simp: step_scores_def intro: max_softmax_pos)

lemma length_step [simp]:
  "length (step_scores logits) = length logits"
  "length (step_preds logits) = length logits"
  "length (step_done env preds) = length preds"
  "length (unsqueeze1 xs) = length xs"
  by (simp_all add: step_scores_def step_preds_def step_done_def unsqueeze1_def)

lemma step_preds_nil: "step_preds logits = [] \<longleftrightarrow> logits = []"
  by (simp add: step_preds_def)

lemma broadcast2_single: "broadcast2 f [x] ys = Inr (map (f x) ys)"
  by (cases ys rule: list.exhaust; cases "tl ys") (auto simp: broadcast2_def)

lemma collect_map_Inr: "collect (map (\<lambda>x. Inr (g x)) xs) = Inr (map g xs)"
  by (induction xs) auto

lemma masked_fill_unsqueeze1:
  "masked_fill (unsqueeze1 scores) flags v = Inr (map (\<lambda>x. map (\<lambda>m. if m then v else x) flags) scores)"
  by (simp add: masked_fill_def unsqueeze1_def comp_def broadcast2_single collect_map_Inr)

lemma decode_body_Inr:
  assumes "decode_body env ctx cbs bs s = Inr (left, s1)"
  shows "[] \<notin> set (step_logits env ctx cbs s)"
    and "broadcast2 (\<or>) (all_done s) (step_done env (step_preds (step_logits env ctx cbs s))) = Inr (all_done s1)"
    and "\<exists>rows1. record_scores (token_count s = 0) (sequence_scores s) (step_scores (step_logits env ctx cbs s)) (all_done s1) = Inr rows1
           \<and> sequence_scores s1 = Some rows1"
    and "trace s1 = trace s @ [(step_preds (step_logits env ctx cbs s), step_scores (step_logits env ctx cbs s))]"
    and "left = list_all (\<lambda>d. d) (all_done s1)"
    and "token_count s1 = token_count s" and "inference_token_count s1 = inference_token_count s"
    and "left \<Longrightarrow> batch_predictions s1 = batch_predictions s"
    and "\<not> left \<Longrightarrow> append_predictions (batch_predictions s) (zip (step_preds (step_logits env ctx cbs s)) (all_done s1)) = Inr (batch_predictions s1)"
    and "\<not> left \<Longrightarrow> batch_decoder_input s1 = (if RECOGNITION_STATIC_CACHE env then pad_to_batch_size [0] (unsqueeze1 (step_preds (step_logits env ctx cbs s))) bs else unsqueeze1 (step_preds (step_logits env ctx cbs s)))"
    and "\<not> left \<Longrightarrow> length (decoder_position_ids s1) = 1"
    and "\<not> left \<Longrightarrow> step_logits env ctx cbs s \<noteq> []"
  using assms unfolding decode_body_def Let_def step_logits_def
  by (auto simp: step_preds_nil split: prod.splits sum.splits if_splits)


subsection \<open>The scripted runs\<close>

text \<open>
  The logits of a letter give the prediction 0 with the score \<open>1 / 4\<close>, those of the end
  marker the prediction 2 with the score \<open>2 / 5\<close>.  The two scripted runs are evaluated
  pass by pass from the state of lines 132 to 153.
\<close>

lemma softmax_letter: "softmax letter_logits = [1 / 4, 1 / 4, 1 / 4, 1 / 4]"
  by (simp add: softmax_def letter_logits_def)

lemma softmax_eos: "softmax eos_logits = [1 / 5, 1 / 5, 2 / 5, 1 / 5]"
  by (simp add: softmax_def eos_logits_def)

lemma argmax_letter: "argmax letter_logits = 0"
  by (simp add: argmax_def letter_logits_def)

lemma argmax_eos: "argmax eos_logits = 2"
  by (simp add: argmax_def eos_logits_def)

lemma script_logits_nonempty:
  "letter_logits \<noteq> []" "eos_logits \<noteq> []" "[] \<noteq> letter_logits" "[] \<noteq> eos_logits"
  by (simp_all add: letter_logits_def eos_logits_def)

lemmas script_eval =
  softmax_letter softmax_eos argmax_letter argmax_eos script_logits_nonempty
  step_preds_def step_scores_def step_done_def broadcast2_def record_scores_def
  unsqueeze1_def masked_fill_def cat_dim1_def Let_def

lemma env_of_script_sel:
  "RECOGNITION_STATIC_CACHE (env_of_script sc) = False"
  "RECOGNITION_MAX_TOKENS (env_of_script sc) = 175"
  "RECOGNITION_ENCODER_BATCH_DIVISOR (env_of_script sc) = 4"
  "decoder_start_token_id (env_of_script sc) = 3"
  "pad_id (env_of_script sc) = 1"
  "eos_id (env_of_script sc) = 2"
  "decoder (env_of_script sc) calls input_ids ctx position_ids prefill
     = (map (sc calls) [0..<length input_ids], Suc calls)"
  "setup_cache (env_of_script sc) b = 0"
  "convert_rgb (env_of_script sc) = (\<lambda>image. image)"
  "processor (env_of_script sc) images langs = (map (\<lambda>_. [0]) images, map (\<lambda>_. []) images)"
  "encoder (env_of_script sc) = map (\<lambda>_. [0])"
  "text_encoder (env_of_script sc) = (\<lambda>x. x)"
  "batch_decode (env_of_script sc) = map (map (\<lambda>t. if t = 0 then CHR ''a'' else CHR ''?''))"
  "truncate_repetitions (env_of_script sc) = (\<lambda>text. text)"
  "contains_math (env_of_script sc) = (\<lambda>_. False)"
  "fix_math (env_of_script sc) = (\<lambda>text. text)"
  by (simp_all add: env_of_script_def)

lemma script_one_initial:
  "initial_state (env_of_script script_one) 8 1 (initial_decoder_input (env_of_script script_one) [[]])
   = \<lparr>token_count = 0, inference_token_count = 1, batch_decoder_input = [[3]],
      decoder_position_ids = [0], batch_predictions = [[]], sequence_scores = None,
      all_done = [False], cache = 0, trace = []\<rparr>"
  by (simp add: initial_state_def initial_decoder_input_def env_of_script_sel)

lemma script_one_run:
  "decode_loop (env_of_script script_one) [[0]] 1 8
     \<lparr>token_count = 0, inference_token_count = 1, batch_decoder_input = [[3]],
      decoder_position_ids = [0], batch_predictions = [[]], sequence_scores = None,
      all_done = [False], cache = 0, trace = []\<rparr>
   = Inr \<lparr>token_count = 1, inference_token_count = 1, batch_decoder_input = [[0]],
          decoder_position_ids = [2], batch_predictions = [[0]],
          sequence_scores = Some [[1 / 4, 0]], all_done = [True], cache = 2,
          trace = [([0], [1 / 4]), ([2], [2 / 5])]\<rparr>"
  by (simp add: decode_loop.simps decode_body_def env_of_script_sel script_one_def script_eval)

lemma script_two_initial:
  "initial_state (env_of_script script_two) 8 2 (initial_decoder_input (env_of_script script_two) [[], []])
   = \<lparr>token_count = 0, inference_token_count = 1, batch_decoder_input = [[3], [3]],
      decoder_position_ids = [0], batch_predictions = [[], []], sequence_scores = None,
      all_done = [False, False], cache = 0, trace = []\<rparr>"
  by (simp add: initial_state_def initial_decoder_input_def env_of_script_sel numeral_2_eq_2)

lemma script_two_run:
  "decode_loop (env_of_script script_two) [[0], [0]] 2 8
     \<lparr>token_count = 0, inference_token_count = 1, batch_decoder_input = [[3], [3]],
      decoder_position_ids = [0], batch_predictions = [[], []], sequence_scores = None,
      all_done = [False, False], cache = 0, trace = []\<rparr>
   = Inr \<lparr>token_count = 2, inference_token_count = 1, batch_decoder_input = [[0], [0]],
          decoder_position_ids = [3], batch_predictions = [[], [0, 0]],
          sequence_scores = Some [[2 / 5, 0, 1 / 4, 0, 0], [1 / 4, 0, 1 / 4, 0, 0]],
          all_done = [True, True], cache = 3,
          trace = [([2, 0], [2 / 5, 1 / 4]), ([0, 0], [1 / 4, 1 / 4]), ([0, 2], [1 / 4, 2 / 5])]\<rparr>"
  by (simp add: decode_loop.simps decode_body_def env_of_script_sel script_two_def script_eval upt_rec)

section \<open>Results about the termination of the decoding loop\<close>

lemma decode_loop_trace_bound:
  "decode_loop env ctx cbs bs s = Inr s' \<Longrightarrow> 1 \<le> inference_token_count s \<Longrightarrow>
     int (length (trace s')) \<le> int (length (trace s)) + max 0 (RECOGNITION_MAX_TOKENS env - 1 - token_count s)"
proof (induction env ctx cbs bs s rule: decode_loop.induct)
  case (1 env ctx cbs bs s)
  show ?case
  proof (cases "token_count s < RECOGNITION_MAX_TOKENS env - 1")
    case False
    with "1.prems" show ?thesis by (simp add: decode_loop.simps)
  next
    case True
    with "1.prems" obtain left s1 where body: "decode_body env ctx cbs bs s = Inr (left, s1)"
      by (subst (asm) decode_loop.simps) (auto split: sum.splits)
    have tr: "length (trace s1) = Suc (length (trace s))"
      using decode_body_Inr(4) [OF body] by simp
    show ?thesis
    proof (cases left)
      case True
      with body \<open>token_count s < _\<close> "1.prems" have "s' = s1"
        by (subst (asm) decode_loop.simps) simp
      with tr \<open>token_count s < _\<close> show ?thesis by simp
    next
      case False
      let ?s2 = "s1\<lparr>token_count := token_count s + int (inference_token_count s), inference_token_count := 1\<rparr>"
      from body False \<open>token_count s < _\<close> "1.prems" have run: "decode_loop env ctx cbs bs ?s2 = Inr s'"
        by (subst (asm) decode_loop.simps) simp
      have "int (length (trace s')) \<le> int (length (trace ?s2))
              + max 0 (RECOGNITION_MAX_TOKENS env - 1 - token_count ?s2)"
        using "1.IH" [OF \<open>token_count s < _\<close> body refl False run] by simp
      with tr "1.prems"(2) \<open>token_count s < _\<close> show ?thesis by simp
    qed
  qed
qed

lemma initial_decoder_input_width:
  assumes "batch_langs \<noteq> []"
  shows "1 \<le> length (hd (initial_decoder_input env batch_langs))"
  using assms by (cases batch_langs) (simp_all add: initial_decoder_input_def Let_def)

lemma decode_loop_exit:
  "token_count s < RECOGNITION_MAX_TOKENS env - 1 \<Longrightarrow> decode_body env ctx cbs bs s = Inr (left, s1)
    \<Longrightarrow> list_all (\<lambda>d. d) (all_done s1) \<Longrightarrow> decode_loop env ctx cbs bs s = Inr s1"
  using decode_body_Inr(5) [of env ctx cbs bs s left s1]
  by (subst decode_loop.simps) simp

text \<open>
  Claim C8.  \<open>decode_loop\<close> is a total function whatever the decoder answers: its
  definition is accepted with a measure built from the remaining token budget, so every
  run ends, in an exception or with a state.  For every batch and every decoder, a run
  from the state that lines 132 to 153 set up calls the decoder at most
  \<^verbatim>\<open>RECOGNITION_MAX_TOKENS - 1\<close> times (\<open>trace\<close> has one entry per call); and a pass after
  which every done flag is set ends the loop at once, with the state of that pass and no
  further call of the decoder.
\<close>

theorem decode_loop_bounded:
  assumes "batch_langs \<noteq> []"
  shows "(\<forall>s'. decode_loop env ctx cbs bs
                 (initial_state env bs cbs (initial_decoder_input env batch_langs)) = Inr s'
            \<longrightarrow> int (length (trace s')) \<le> max 0 (RECOGNITION_MAX_TOKENS env - 1))
       \<and> (\<forall>s left s1. token_count s < RECOGNITION_MAX_TOKENS env - 1
              \<and> decode_body env ctx cbs bs s = Inr (left, s1)
              \<and> list_all (\<lambda>d. d) (all_done s1)
            \<longrightarrow> decode_loop env ctx cbs bs s = Inr s1
                \<and> length (trace s1) = Suc (length (trace s)))"
proof (intro conjI allI impI)
  fix s'
  let ?s0 = "initial_state env bs cbs (initial_decoder_input env batch_langs)"
  assume run: "decode_loop env ctx cbs bs ?s0 = Inr s'"
  have "1 \<le> inference_token_count ?s0"
    using initial_decoder_input_width [OF assms, of env] by (simp add: initial_state_def Let_def)
  from decode_loop_trace_bound [OF run this]
  show "int (length (trace s')) \<le> max 0 (RECOGNITION_MAX_TOKENS env - 1)"
    by (simp add: initial_state_def Let_def)
next
  fix s left s1
  assume a: "token_count s < RECOGNITION_MAX_TOKENS env - 1
              \<and> decode_body env ctx cbs bs s = Inr (left, s1)
              \<and> list_all (\<lambda>d. d) (all_done s1)"
  then show "decode_loop env ctx cbs bs s = Inr s1" using decode_loop_exit by blast
  from a show "length (trace s1) = Suc (length (trace s))"
    using decode_body_Inr(4) [of env ctx cbs bs s left s1] by simp
qed

theorem decode_loop_bounded_witness:
  "decode_loop (env_of_script script_one) [[0]] 1 8
     (initial_state (env_of_script script_one) 8 1 (initial_decoder_input (env_of_script script_one) [[]]))
   = Inr \<lparr>token_count = 1, inference_token_count = 1, batch_decoder_input = [[0]],
          decoder_position_ids = [2], batch_predictions = [[0]],
          sequence_scores = Some [[1 / 4, 0]], all_done = [True], cache = 2,
          trace = [([0], [1 / 4]), ([2], [2 / 5])]\<rparr>
   \<and> int (length (trace \<lparr>token_count = 1, inference_token_count = 1, batch_decoder_input = [[0]],
          decoder_position_ids = [2], batch_predictions = [[0]],
          sequence_scores = Some [[1 / 4, 0]], all_done = [True], cache = 2,
          trace = [([0], [1 / 4]), ([2 :: int], [2 / 5 :: real])]\<rparr>)) \<le> 174"
proof -
  have run: "decode_loop (env_of_script script_one) [[0]] 1 8
     (initial_state (env_of_script script_one) 8 1 (initial_decoder_input (env_of_script script_one) [[]]))
   = Inr \<lparr>token_count = 1, inference_token_count = 1, batch_decoder_input = [[0]],
          decoder_position_ids = [2], batch_predictions = [[0]],
          sequence_scores = Some [[1 / 4, 0]], all_done = [True], cache = 2,
          trace = [([0], [1 / 4]), ([2], [2 / 5])]\<rparr>"
    unfolding script_one_initial by (rule script_one_run)
  have ne: "[[]] \<noteq> ([] :: token list list)" by simp
  from decode_loop_bounded [OF ne, of "env_of_script script_one" "[[0]]" 1 8,
      THEN conjunct1, rule_format, OF run]
  show ?thesis using run by (simp add: env_of_script_sel)
qed

section \<open>Results about the confidence division\<close>

lemma cat_dim1_Inr: "cat_dim1 a b = Inr c \<Longrightarrow> length a = length b \<and> c = map2 (@) a b"
  by (auto simp: cat_dim1_def split: if_splits)

lemma record_scores_heads:
  assumes rec: "record_scores pf seq scores flags = Inr rows1"
    and pos: "\<forall>x\<in>set scores. 0 < x"
    and stored: "pf \<or> (\<exists>stored. seq = Some stored \<and> (\<forall>row\<in>set stored. row \<noteq> [] \<and> 0 < hd row))"
  shows "\<forall>row\<in>set rows1. row \<noteq> [] \<and> 0 < hd row"
proof (cases pf)
  case True
  with rec have "rows1 = unsqueeze1 scores" by (simp add: record_scores_def)
  with pos show ?thesis by (auto simp: unsqueeze1_def)
next
  case False
  with stored obtain st where st: "seq = Some st" "\<forall>row\<in>set st. row \<noteq> [] \<and> 0 < hd row"
    by blast
  from rec False st(1) obtain masked where "cat_dim1 st masked = Inr rows1"
    by (auto simp: record_scores_def split: sum.splits)
  then have rows1: "rows1 = map2 (@) st masked" by (simp add: cat_dim1_Inr)
  show ?thesis
  proof
    fix row assume "row \<in> set rows1"
    then obtain a b where "(a, b) \<in> set (zip st masked)" "row = a @ b"
      unfolding rows1 by auto
    then have "a \<in> set st" by (auto dest: set_zip_leftD)
    with st(2) have "a \<noteq> []" "0 < hd a" by auto
    with \<open>row = a @ b\<close> show "row \<noteq> [] \<and> 0 < hd row" by simp
  qed
qed

lemma decode_loop_heads:
  "decode_loop env ctx cbs bs s = Inr s' \<Longrightarrow>
   (case sequence_scores s of
      None \<Rightarrow> token_count s = 0 \<and> token_count s < RECOGNITION_MAX_TOKENS env - 1
    | Some stored \<Rightarrow> \<forall>row\<in>set stored. row \<noteq> [] \<and> 0 < hd row) \<Longrightarrow>
   \<exists>rows. sequence_scores s' = Some rows \<and> (\<forall>row\<in>set rows. row \<noteq> [] \<and> 0 < hd row)"
proof (induction env ctx cbs bs s rule: decode_loop.induct)
  case (1 env ctx cbs bs s)
  show ?case
  proof (cases "token_count s < RECOGNITION_MAX_TOKENS env - 1")
    case False
    with "1.prems"(1) have "s' = s" by (simp add: decode_loop.simps)
    with False "1.prems"(2) show ?thesis by (auto split: option.splits)
  next
    case True
    with "1.prems"(1) obtain left s1 where body: "decode_body env ctx cbs bs s = Inr (left, s1)"
      by (subst (asm) decode_loop.simps) (auto split: sum.splits)
    from decode_body_Inr(3) [OF body] obtain rows1 where
      rec: "record_scores (token_count s = 0) (sequence_scores s)
              (step_scores (step_logits env ctx cbs s)) (all_done s1) = Inr rows1"
      and seq1: "sequence_scores s1 = Some rows1" by blast
    have pos: "\<forall>x\<in>set (step_scores (step_logits env ctx cbs s)). 0 < x"
      using decode_body_Inr(1) [OF body] step_scores_pos by blast
    have "token_count s = 0 \<or> (\<exists>stored. sequence_scores s = Some stored
             \<and> (\<forall>row\<in>set stored. row \<noteq> [] \<and> 0 < hd row))"
      using "1.prems"(2) by (cases "sequence_scores s") auto
    from record_scores_heads [OF rec pos this]
    have good: "\<forall>row\<in>set rows1. row \<noteq> [] \<and> 0 < hd row" .
    show ?thesis
    proof (cases left)
      case True
      with body \<open>token_count s < _\<close> "1.prems"(1) have "s' = s1"
        by (subst (asm) decode_loop.simps) simp
      with seq1 good show ?thesis by simp
    next
      case False
      let ?s2 = "s1\<lparr>token_count := token_count s + int (inference_token_count s), inference_token_count := 1\<rparr>"
      from body False \<open>token_count s < _\<close> "1.prems"(1) have run: "decode_loop env ctx cbs bs ?s2 = Inr s'"
        by (subst (asm) decode_loop.simps) simp
      show ?thesis
        using "1.IH" [OF \<open>token_count s < _\<close> body refl False run] seq1 good by simp
    qed
  qed
qed

lemma confidence_of_head:
  assumes "row \<noteq> []" "0 < hd row"
  shows "1 \<le> length (filter (\<lambda>x. x \<noteq> 0) row)"
    and "confidence_of row = Conf (sum_list row / real (length (filter (\<lambda>x. x \<noteq> 0) row)))"
proof -
  from assms obtain x xs where "row = x # xs" "x \<noteq> 0" by (cases row) auto
  then show "1 \<le> length (filter (\<lambda>x. x \<noteq> 0) row)" by simp
  then have "length (filter (\<lambda>x. x \<noteq> 0) row) \<noteq> 0" by linarith
  then show "confidence_of row = Conf (sum_list row / real (length (filter (\<lambda>x. x \<noteq> 0) row)))"
    unfolding confidence_of_def Let_def by (simp only: if_False)
qed

lemma initial_state_fields [simp]:
  "token_count (initial_state env bs cbs inp) = 0"
  "sequence_scores (initial_state env bs cbs inp) = None"
  "trace (initial_state env bs cbs inp) = []"
  "all_done (initial_state env bs cbs inp) = replicate cbs False"
  "batch_predictions (initial_state env bs cbs inp) = replicate cbs []"
  "inference_token_count (initial_state env bs cbs inp) = length (hd inp)"
  by (simp_all add: initial_state_def Let_def)

lemma decode_loop_initial_heads:
  assumes run: "decode_loop env ctx cbs bs (initial_state env bs cbs inp) = Inr s'"
    and rows: "sequence_scores s' = Some rows"
  shows "\<forall>row\<in>set rows. row \<noteq> [] \<and> 0 < hd row"
proof (cases "0 < RECOGNITION_MAX_TOKENS env - 1")
  case False
  with run have "s' = initial_state env bs cbs inp" by (simp add: decode_loop.simps)
  with rows show ?thesis by simp
next
  case True
  with decode_loop_heads [OF run] rows show ?thesis by simp
qed

lemma recognize_batch_no_nan:
  assumes "recognize_batch env bs images langs = Inr (texts, confs)"
  shows "NaN \<notin> set confs"
proof -
  from assms obtain ctx cbs inp s' rows where
    run: "decode_loop env ctx cbs bs (initial_state env bs cbs inp) = Inr s'"
    and rows: "sequence_scores s' = Some rows" and confs: "confs = map confidence_of rows"
    unfolding recognize_batch_def Let_def
    by (auto split: prod.splits if_splits sum.splits option.splits)
  from decode_loop_initial_heads [OF run rows] confidence_of_head(2)
  have "\<forall>row\<in>set rows. confidence_of row \<noteq> NaN" by (metis confidence.distinct(1))
  with confs show ?thesis by auto
qed

text \<open>
  Claim C10.  A pass at the prefill step stores the scores of all samples as they are,
  and each of them, the maximum of a softmax, is positive.  So in every state the loop
  returns from the state of lines 132 to 153, every row of \<^verbatim>\<open>sequence_scores\<close> starts
  with a positive entry: the number of nonzero entries, the divisor of line 261, is at
  least 1, and the confidence is the quotient of line 260, not the \<open>NaN\<close> of \<open>0 / 0\<close>.
  No confidence that \<open>recognize_batch\<close> returns is \<open>NaN\<close>.
\<close>

theorem confidence_division_safe:
  "(\<forall>s left s1. token_count s = 0 \<and> decode_body env ctx cbs bs s = Inr (left, s1)
        \<longrightarrow> sequence_scores s1 = Some (unsqueeze1 (step_scores (step_logits env ctx cbs s)))
            \<and> (\<forall>x\<in>set (step_scores (step_logits env ctx cbs s)). 0 < x))
   \<and> (\<forall>s' rows row. decode_loop env ctx cbs bs (initial_state env bs cbs inp) = Inr s'
          \<and> sequence_scores s' = Some rows \<and> row \<in> set rows
        \<longrightarrow> row \<noteq> [] \<and> 0 < hd row \<and> 1 \<le> length (filter (\<lambda>x. x \<noteq> 0) row)
            \<and> confidence_of row = Conf (sum_list row / real (length (filter (\<lambda>x. x \<noteq> 0) row))))
   \<and> (\<forall>images langs texts confs. recognize_batch env bs images langs = Inr (texts, confs)
        \<longrightarrow> NaN \<notin> set confs)"
proof (intro conjI allI impI)
  fix s left s1
  assume a: "token_count s = 0 \<and> decode_body env ctx cbs bs s = Inr (left, s1)"
  then have body: "decode_body env ctx cbs bs s = Inr (left, s1)" and tc: "token_count s = 0" by simp_all
  from decode_body_Inr(3) [OF body] tc
  show "sequence_scores s1 = Some (unsqueeze1 (step_scores (step_logits env ctx cbs s)))"
    by (auto simp: record_scores_def)
  show "\<forall>x\<in>set (step_scores (step_logits env ctx cbs s)). 0 < x"
    using decode_body_Inr(1) [OF body] step_scores_pos by blast
next
  fix s' rows row
  assume a: "decode_loop env ctx cbs bs (initial_state env bs cbs inp) = Inr s'
          \<and> sequence_scores s' = Some rows \<and> row \<in> set rows"
  then have h: "row \<noteq> []" "0 < hd row" using decode_loop_initial_heads by blast+
  then show "row \<noteq> []" "0 < hd row" by simp_all
  from confidence_of_head [OF h]
  show "1 \<le> length (filter (\<lambda>x. x \<noteq> 0) row)"
    and "confidence_of row = Conf (sum_list row / real (length (filter (\<lambda>x. x \<noteq> 0) row)))"
    by simp_all
next
  fix images langs texts confs
  assume "recognize_batch env bs images langs = Inr (texts, confs)"
  then show "NaN \<notin> set confs" by (rule recognize_batch_no_nan)
qed

theorem confidence_division_safe_witness:
  "decode_loop (env_of_script script_one) [[0]] 1 8
     (initial_state (env_of_script script_one) 8 1 (initial_decoder_input (env_of_script script_one) [[]]))
   = Inr \<lparr>token_count = 1, inference_token_count = 1, batch_decoder_input = [[0]],
          decoder_position_ids = [2], batch_predictions = [[0]],
          sequence_scores = Some [[1 / 4, 0]], all_done = [True], cache = 2,
          trace = [([0], [1 / 4]), ([2], [2 / 5])]\<rparr>
   \<and> 1 \<le> length (filter (\<lambda>x. x \<noteq> 0) [1 / 4, 0 :: real])
   \<and> confidence_of [1 / 4, 0] = Conf (1 / 4)"
proof -
  let ?S = "\<lparr>token_count = 1, inference_token_count = 1, batch_decoder_input = [[0]],
          decoder_position_ids = [2], batch_predictions = [[0]],
          sequence_scores = Some [[1 / 4, 0]], all_done = [True], cache = 2 :: nat,
          trace = [([0], [1 / 4]), ([2], [2 / 5])]\<rparr>"
  have run: "decode_loop (env_of_script script_one) [[0]] 1 8
     (initial_state (env_of_script script_one) 8 1 (initial_decoder_input (env_of_script script_one) [[]]))
     = Inr ?S"
    unfolding script_one_initial by (rule script_one_run)
  have "decode_loop (env_of_script script_one) [[0]] 1 8
     (initial_state (env_of_script script_one) 8 1 (initial_decoder_input (env_of_script script_one) [[]]))
     = Inr ?S \<and> sequence_scores ?S = Some [[1 / 4, 0]] \<and> [1 / 4, 0] \<in> set [[1 / 4, 0 :: real]]"
    using run by simp
  from confidence_division_safe [THEN conjunct2, THEN conjunct1, rule_format, OF this]
  show ?thesis using run by simp
qed

section \<open>Results about the scores recorded by one pass\<close>

lemma map2_single: "map2 f xs (map g ys) = map2 (\<lambda>x y. f x (g y)) xs ys"
  by (induction xs ys rule: list_induct2') auto

lemma script_one_second_pass:
  "decode_body (env_of_script script_one) [[0]] 1 8
     \<lparr>token_count = 1, inference_token_count = 1, batch_decoder_input = [[0]],
      decoder_position_ids = [1], batch_predictions = [[0]], sequence_scores = Some [[1 / 4]],
      all_done = [False], cache = 1, trace = [([0], [1 / 4])]\<rparr>
   = Inr (True,
      \<lparr>token_count = 1, inference_token_count = 1, batch_decoder_input = [[0]],
       decoder_position_ids = [2], batch_predictions = [[0]],
       sequence_scores = Some [[1 / 4, 0]], all_done = [True], cache = 2,
       trace = [([0], [1 / 4]), ([2], [2 / 5])]\<rparr>)"
  by (simp add: decode_body_def env_of_script_sel script_one_def script_eval)

text \<open>
  Claim C3 says that the score of a step is zeroed only for samples that were done before
  the step, and that a sample that becomes done on the step keeps the raw score of its
  terminal token.  Line 225 updates \<^verbatim>\<open>all_done\<close> before line 230 masks with it.  One
  sample, a letter at the prefill step (score \<open>1 / 4\<close>) and the end marker at the second
  step (score \<open>2 / 5\<close>): the sample becomes done at the second step, and the entry
  recorded for that step is 0, not \<open>2 / 5\<close>.
\<close>

theorem terminal_score_recorded_counterexample:
  "decode_loop (env_of_script script_one) [[0]] 1 8
     (initial_state (env_of_script script_one) 8 1 (initial_decoder_input (env_of_script script_one) [[]]))
   = Inr \<lparr>token_count = 1, inference_token_count = 1, batch_decoder_input = [[0]],
          decoder_position_ids = [2], batch_predictions = [[0]],
          sequence_scores = Some [[1 / 4, 0]], all_done = [True], cache = 2,
          trace = [([0], [1 / 4]), ([2], [2 / 5])]\<rparr>
   \<and> (2 / 5 :: real) \<notin> set [1 / 4, 0]"
  unfolding script_one_initial using script_one_run by simp

text \<open>
  Claim C3, amended.  In a pass in which the decoder answers every sample: the done
  flags after the pass are the flags before it joined with the \<^verbatim>\<open>done\<close> flags of the
  pass.  At the prefill step the raw score of every sample is recorded, also for a sample
  that becomes done on that step.  At every later step the scores are masked with the
  flags as the pass has updated them: to the row of every sample, one entry is joined
  for every flag, 0 where the flag is set (the sample of the flag was done before the
  pass or becomes done on it) and the raw score of the row's sample where it is not.
\<close>

theorem decode_body_masks_with_updated_flags:
  assumes body: "decode_body env ctx cbs bs s = Inr (left, s1)"
    and len: "length (all_done s) = length (step_logits env ctx cbs s)"
  shows "all_done s1 = map2 (\<or>) (all_done s) (step_done env (step_preds (step_logits env ctx cbs s)))
     \<and> (token_count s = 0 \<longrightarrow>
          sequence_scores s1 = Some (map (\<lambda>x. [x]) (step_scores (step_logits env ctx cbs s))))
     \<and> (token_count s \<noteq> 0 \<longrightarrow>
          (\<exists>stored. sequence_scores s = Some stored
             \<and> sequence_scores s1 =
                 Some (map2 (\<lambda>row x. row @ map (\<lambda>d. if d then 0 else x) (all_done s1))
                         stored (step_scores (step_logits env ctx cbs s)))))"
proof (intro conjI impI)
  show "all_done s1 = map2 (\<or>) (all_done s) (step_done env (step_preds (step_logits env ctx cbs s)))"
    using decode_body_Inr(2) [OF body] len by (simp add: broadcast2_def)
next
  assume "token_count s = 0"
  with decode_body_Inr(3) [OF body]
  show "sequence_scores s1 = Some (map (\<lambda>x. [x]) (step_scores (step_logits env ctx cbs s)))"
    by (auto simp: record_scores_def unsqueeze1_def)
next
  assume tc: "token_count s \<noteq> 0"
  from decode_body_Inr(3) [OF body] obtain rows1 where
    rec: "record_scores (token_count s = 0) (sequence_scores s)
            (step_scores (step_logits env ctx cbs s)) (all_done s1) = Inr rows1"
    and seq1: "sequence_scores s1 = Some rows1" by blast
  from rec tc obtain stored where st: "sequence_scores s = Some stored"
    and cat: "cat_dim1 stored (map (\<lambda>x. map (\<lambda>m. if m then 0 else x) (all_done s1))
                 (step_scores (step_logits env ctx cbs s))) = Inr rows1"
    by (auto simp: record_scores_def masked_fill_unsqueeze1 split: option.splits)
  from cat_dim1_Inr [OF cat] have "rows1 = map2 (\<lambda>row x. row @ map (\<lambda>d. if d then 0 else x) (all_done s1))
                         stored (step_scores (step_logits env ctx cbs s))"
    by (simp add: map2_single)
  with st seq1 show "\<exists>stored. sequence_scores s = Some stored
             \<and> sequence_scores s1 =
                 Some (map2 (\<lambda>row x. row @ map (\<lambda>d. if d then 0 else x) (all_done s1))
                         stored (step_scores (step_logits env ctx cbs s)))" by blast
qed

theorem decode_body_masks_with_updated_flags_witness:
  "sequence_scores
      \<lparr>token_count = 1, inference_token_count = 1, batch_decoder_input = [[0]],
       decoder_position_ids = [2], batch_predictions = [[0]],
       sequence_scores = Some [[1 / 4, 0]], all_done = [True], cache = 2 :: nat,
       trace = [([0], [1 / 4]), ([2], [2 / 5])]\<rparr>
    = Some (map2 (\<lambda>row x. row @ map (\<lambda>d. if d then 0 else x) [True]) [[1 / 4]] [2 / 5])
   \<and> [True] = map2 (\<or>) [False] [True]"
proof -
  let ?s = "\<lparr>token_count = 1, inference_token_count = 1, batch_decoder_input = [[0]],
      decoder_position_ids = [1], batch_predictions = [[0]], sequence_scores = Some [[1 / 4]],
      all_done = [False], cache = 1 :: nat, trace = [([0], [1 / 4])]\<rparr>"
  have len: "length (all_done ?s) = length (step_logits (env_of_script script_one) [[0]] 1 ?s)"
    by (simp add: step_logits_def env_of_script_sel)
  from decode_body_masks_with_updated_flags [OF script_one_second_pass len]
  show ?thesis by (simp add: step_logits_def env_of_script_sel script_one_def script_eval)
qed

section \<open>Results about the aggregated confidence\<close>

lemma single_pass:
  assumes body: "decode_body env ctx 1 bs s = Inr (left, s1)" and ad: "all_done s = [False]"
  shows "(all_done s1 = [] \<and> left)
       \<or> (\<exists>p x. 0 < x \<and> trace s1 = trace s @ [([p], [x])]
              \<and> all_done s1 = step_done env [p] \<and> left = (step_done env [p] = [True])
              \<and> (token_count s = 0 \<longrightarrow> sequence_scores s1 = Some [[x]])
              \<and> (\<forall>r. token_count s \<noteq> 0 \<and> sequence_scores s = Some [r]
                    \<longrightarrow> sequence_scores s1 = Some [r @ [if left then 0 else x]]))"
proof -
  let ?L = "step_logits env ctx 1 s"
  have "length ?L \<le> 1" by (simp add: step_logits_def)
  then consider "?L = []" | l where "?L = [l]"
    by (cases ?L rule: list.exhaust; cases "tl ?L") auto
  then show ?thesis
  proof cases
    case 1
    from decode_body_Inr(2) [OF body]
    have "broadcast2 (\<or>) [False] (step_done env (step_preds [])) = Inr (all_done s1)"
      unfolding ad 1 .
    then have "all_done s1 = []"
      unfolding broadcast2_single by (simp add: step_preds_def step_done_def)
    moreover from this decode_body_Inr(5) [OF body] have left by simp
    ultimately show ?thesis by simp
  next
    case 2
    define p where "p = int (argmax l)"
    define x where "x = Max (set (softmax l))"
    have preds: "step_preds ?L = [p]" and scores: "step_scores ?L = [x]"
      using 2 by (simp_all add: step_preds_def step_scores_def p_def x_def)
    have "[] \<notin> set ?L" by (rule decode_body_Inr(1) [OF body])
    then have pos: "0 < x" using step_scores_pos [of ?L x] scores by simp
    obtain d where d: "step_done env [p] = [d]" by (simp add: step_done_def)
    from decode_body_Inr(2) [OF body]
    have "broadcast2 (\<or>) [False] [d] = Inr (all_done s1)"
      unfolding ad preds d .
    then have ad1: "all_done s1 = [d]"
      unfolding broadcast2_single by simp
    from decode_body_Inr(5) [OF body] ad1 have left: "left = d" by simp
    from decode_body_Inr(3) [OF body] obtain rows1 where
      rec: "record_scores (token_count s = 0) (sequence_scores s) [x] [d] = Inr rows1"
      and seq1: "sequence_scores s1 = Some rows1" unfolding scores ad1 by blast
    have a: "token_count s = 0 \<longrightarrow> sequence_scores s1 = Some [[x]]"
      using rec seq1 by (auto simp: record_scores_def unsqueeze1_def)
    have b: "\<forall>r. token_count s \<noteq> 0 \<and> sequence_scores s = Some [r]
                    \<longrightarrow> sequence_scores s1 = Some [r @ [if left then 0 else x]]"
      using rec seq1 left
      by (auto simp: record_scores_def masked_fill_unsqueeze1 cat_dim1_def split: if_splits)
    have "trace s1 = trace s @ [([p], [x])]"
      using decode_body_Inr(4) [OF body] preds scores by simp
    with pos ad1 d left a b show ?thesis by auto
  qed
qed

lemma single_sample_loop:
  "decode_loop env ctx cbs bs s = Inr s' \<Longrightarrow> cbs = 1 \<Longrightarrow> all_done s' = [True] \<Longrightarrow>
   all_done s = [False] \<Longrightarrow> 1 \<le> inference_token_count s \<Longrightarrow> 0 \<le> token_count s \<Longrightarrow>
   (if trace s = [] then token_count s = 0
    else token_count s \<noteq> 0 \<and> sequence_scores s = Some [map (\<lambda>e. hd (snd e)) (trace s)]) \<Longrightarrow>
   list_all (\<lambda>e. 0 < hd (snd e) \<and> step_done env (fst e) = [False]) (trace s) \<Longrightarrow>
   trace s' \<noteq> []
   \<and> list_all (\<lambda>e. 0 < hd (snd e)) (trace s')
   \<and> step_done env (fst (last (trace s'))) = [True]
   \<and> list_all (\<lambda>e. step_done env (fst e) = [False]) (butlast (trace s'))
   \<and> sequence_scores s' =
        Some [if length (trace s') = 1 then map (\<lambda>e. hd (snd e)) (trace s')
              else map (\<lambda>e. hd (snd e)) (butlast (trace s')) @ [0]]"
proof (induction env ctx cbs bs s rule: decode_loop.induct)
  case (1 env ctx cbs bs s)
  note prems = "1.prems"
  show ?case
  proof (cases "token_count s < RECOGNITION_MAX_TOKENS env - 1")
    case False
    with prems(1) have "s' = s" by (simp add: decode_loop.simps)
    with prems(3,4) show ?thesis by simp
  next
    case True
    with prems(1) obtain left s1 where body0: "decode_body env ctx cbs bs s = Inr (left, s1)"
      by (subst (asm) decode_loop.simps) (auto split: sum.splits)
    then have body: "decode_body env ctx 1 bs s = Inr (left, s1)" using prems(2) by simp
    from single_pass [OF body prems(4)]
    show ?thesis
    proof
      assume e: "all_done s1 = [] \<and> left"
      with body0 True prems(1) have "s' = s1"
        by (subst (asm) decode_loop.simps) simp
      with e prems(3) show ?thesis by simp
    next
      assume "\<exists>p x. 0 < x \<and> trace s1 = trace s @ [([p], [x])]
              \<and> all_done s1 = step_done env [p] \<and> left = (step_done env [p] = [True])
              \<and> (token_count s = 0 \<longrightarrow> sequence_scores s1 = Some [[x]])
              \<and> (\<forall>r. token_count s \<noteq> 0 \<and> sequence_scores s = Some [r]
                    \<longrightarrow> sequence_scores s1 = Some [r @ [if left then 0 else x]])"
      then obtain p x where pos: "0 < x" and tr: "trace s1 = trace s @ [([p], [x])]"
        and ad1: "all_done s1 = step_done env [p]" and left: "left = (step_done env [p] = [True])"
        and pre: "token_count s = 0 \<longrightarrow> sequence_scores s1 = Some [[x]]"
        and later: "\<forall>r. token_count s \<noteq> 0 \<and> sequence_scores s = Some [r]
                    \<longrightarrow> sequence_scores s1 = Some [r @ [if left then 0 else x]]"
        by blast
      have seq1: "sequence_scores s1 =
                   Some [if trace s = [] then [x]
                         else map (\<lambda>e. hd (snd e)) (trace s) @ [if left then 0 else x]]"
        using prems(7) pre later by (auto split: if_splits)
      show ?thesis
      proof (cases left)
        case True
        with body0 \<open>token_count s < _\<close> prems(1) have s': "s' = s1"
          by (subst (asm) decode_loop.simps) simp
        have "list_all (\<lambda>e. 0 < hd (snd e)) (trace s)"
          and "list_all (\<lambda>e. step_done env (fst e) = [False]) (trace s)"
          using prems(8) by (simp_all add: list_all_iff)
        with True left pos tr seq1 show ?thesis unfolding s' by (simp add: list_all_iff)
      next
        case False
        let ?s2 = "s1\<lparr>token_count := token_count s + int (inference_token_count s), inference_token_count := 1\<rparr>"
        from body0 False \<open>token_count s < _\<close> prems(1) have run: "decode_loop env ctx cbs bs ?s2 = Inr s'"
          by (subst (asm) decode_loop.simps) simp
        have d: "step_done env [p] = [False]" using False left by (simp add: step_done_def)
        have i1: "all_done ?s2 = [False]" using ad1 d by simp
        have i2: "1 \<le> inference_token_count ?s2" by simp
        have i3: "0 \<le> token_count ?s2" using prems(6) by simp
        have i4: "if trace ?s2 = [] then token_count ?s2 = 0
                  else token_count ?s2 \<noteq> 0
                     \<and> sequence_scores ?s2 = Some [map (\<lambda>e. hd (snd e)) (trace ?s2)]"
          using tr seq1 False prems(5,6) by simp
        have i5: "list_all (\<lambda>e. 0 < hd (snd e) \<and> step_done env (fst e) = [False]) (trace ?s2)"
          using tr prems(8) pos d by simp
        show ?thesis
          using "1.IH" [OF \<open>token_count s < _\<close> body0 refl False run prems(2,3) i1 i2 i3 i4 i5] .
      qed
    qed
  qed
qed

lemma confidence_of_positive_then_zero:
  assumes "b \<noteq> []" and "list_all (\<lambda>x. 0 < x) b"
  shows "confidence_of (b @ [0]) = Conf (sum_list b / real (length b))"
proof -
  have "filter (\<lambda>x. x \<noteq> 0) b = b"
    using assms(2) by (induction b) auto
  with assms(1) show ?thesis by (simp add: confidence_of_def Let_def)
qed

text \<open>
  Claim C4 says that the confidence of a sample that becomes done at step \<open>k\<close> is the mean
  of its first \<open>k\<close> step scores, the terminal step included.  One sample, a letter at the
  prefill step (score \<open>1 / 4\<close>) and the end marker at the second step (score \<open>2 / 5\<close>): the
  sample becomes done at step 2, its score row is \<open>[1 / 4, 0]\<close>, and its confidence is
  \<open>1 / 4\<close>, the mean of the first step alone, not \<open>(1 / 4 + 2 / 5) / 2\<close>.
\<close>

theorem terminal_step_in_mean_counterexample:
  "decode_loop (env_of_script script_one) [[0]] 1 8
     (initial_state (env_of_script script_one) 8 1 (initial_decoder_input (env_of_script script_one) [[]]))
   = Inr \<lparr>token_count = 1, inference_token_count = 1, batch_decoder_input = [[0]],
          decoder_position_ids = [2], batch_predictions = [[0]],
          sequence_scores = Some [[1 / 4, 0]], all_done = [True], cache = 2,
          trace = [([0], [1 / 4]), ([2], [2 / 5])]\<rparr>
   \<and> recognize_batch (env_of_script script_one) 8 [Image 10 []] [None]
       = Inr ([''a''], [Conf (1 / 4)])
   \<and> Conf (1 / 4) \<noteq> Conf ((1 / 4 + 2 / 5) / 2)"
proof -
  have "recognize_batch (env_of_script script_one) 8 [Image 10 []] [None]
       = Inr ([''a''], [Conf (1 / 4)])"
    by (simp add: recognize_batch_def encoder_stage_def py_range_def slice_def Let_def
        env_of_script_sel has_math_flag_def confidence_of_def same_shape_def
        script_one_initial [unfolded One_nat_def]
        script_one_run [unfolded One_nat_def])
  then show ?thesis unfolding script_one_initial using script_one_run by simp
qed

text \<open>
  Claim C4, amended.  The confidence of a sample is the sum of its score row divided by
  the number of nonzero entries of the row, and that number is at least 1.  For a sample
  that is decoded alone (a batch of one) and becomes done at step \<open>k\<close> (the decoder was
  called \<open>k\<close> times, the last prediction is the end or pad marker, no earlier one is):
  all its step scores are positive; if \<open>k = 1\<close> the confidence is the score of the prefill
  step, and if \<open>k > 1\<close> it is the mean of the scores of the first \<open>k - 1\<close> steps, the score
  of the terminal step being zeroed.
\<close>

theorem single_sample_confidence:
  assumes run: "decode_loop env ctx 1 bs
                  (initial_state env bs 1 (initial_decoder_input env [lang])) = Inr s'"
    and fin: "all_done s' = [True]"
  shows "\<exists>row. sequence_scores s' = Some [row]
     \<and> confidence_of row = Conf (sum_list row / real (length (filter (\<lambda>x. x \<noteq> 0) row)))
     \<and> trace s' \<noteq> [] \<and> list_all (\<lambda>e. 0 < hd (snd e)) (trace s')
     \<and> step_done env (fst (last (trace s'))) = [True]
     \<and> list_all (\<lambda>e. step_done env (fst e) = [False]) (butlast (trace s'))
     \<and> (if length (trace s') = 1 then confidence_of row = Conf (hd (snd (hd (trace s'))))
         else confidence_of row =
                Conf (sum_list (map (\<lambda>e. hd (snd e)) (butlast (trace s')))
                        / real (length (trace s') - 1)))"
proof -
  let ?s0 = "initial_state env bs 1 (initial_decoder_input env [lang])"
  have w: "1 \<le> inference_token_count ?s0"
    using initial_decoder_input_width [of "[lang]" env] by simp
  have loop: "trace s' \<noteq> []
     \<and> list_all (\<lambda>e. 0 < hd (snd e)) (trace s')
     \<and> step_done env (fst (last (trace s'))) = [True]
     \<and> list_all (\<lambda>e. step_done env (fst e) = [False]) (butlast (trace s'))
     \<and> sequence_scores s' =
          Some [if length (trace s') = 1 then map (\<lambda>e. hd (snd e)) (trace s')
                else map (\<lambda>e. hd (snd e)) (butlast (trace s')) @ [0]]"
    by (rule single_sample_loop [OF run refl fin _ w]) simp_all
  let ?raw = "map (\<lambda>e. hd (snd e)) (trace s')"
  let ?row = "if length (trace s') = 1 then ?raw else map (\<lambda>e. hd (snd e)) (butlast (trace s')) @ [0]"
  have pos: "list_all (\<lambda>x. 0 < x) ?raw" using loop by (simp add: list_all_iff)
  have ne: "?row \<noteq> []" using loop by simp
  have hd_pos: "0 < hd ?row"
  proof (cases "length (trace s') = 1")
    case True
    then obtain e where "trace s' = [e]" by (cases "trace s'") auto
    with loop show ?thesis by simp
  next
    case False
    with loop obtain e es where t: "trace s' = e # es" "es \<noteq> []" by (cases "trace s'") auto
    with loop False show ?thesis by simp
  qed
  have conf: "confidence_of ?row = Conf (sum_list ?row / real (length (filter (\<lambda>x. x \<noteq> 0) ?row)))"
    by (rule confidence_of_head(2) [OF ne hd_pos])
  have last: "if length (trace s') = 1 then confidence_of ?row = Conf (hd (snd (hd (trace s'))))
         else confidence_of ?row =
                Conf (sum_list (map (\<lambda>e. hd (snd e)) (butlast (trace s')))
                        / real (length (trace s') - 1))"
  proof (cases "length (trace s') = 1")
    case True
    then obtain e where "trace s' = [e]" by (cases "trace s'") auto
    with loop show ?thesis by (simp add: confidence_of_def Let_def)
  next
    case False
    with loop have b: "map (\<lambda>e. hd (snd e)) (butlast (trace s')) \<noteq> []"
      by (cases "trace s'") auto
    have "list_all (\<lambda>x. 0 < x) (map (\<lambda>e. hd (snd e)) (butlast (trace s')))"
      using loop by (auto simp: list_all_iff dest: in_set_butlastD)
    from confidence_of_positive_then_zero [OF b this] False show ?thesis by simp
  qed
  show ?thesis using loop conf last by (intro exI [of _ ?row]) simp
qed

theorem single_sample_confidence_witness:
  "decode_loop (env_of_script script_one) [[0]] 1 8
     (initial_state (env_of_script script_one) 8 1 (initial_decoder_input (env_of_script script_one) [[]]))
   = Inr \<lparr>token_count = 1, inference_token_count = 1, batch_decoder_input = [[0]],
          decoder_position_ids = [2], batch_predictions = [[0]],
          sequence_scores = Some [[1 / 4, 0]], all_done = [True], cache = 2,
          trace = [([0], [1 / 4]), ([2], [2 / 5])]\<rparr>
   \<and> confidence_of [1 / 4, 0] = Conf (sum_list [1 / 4] / real (2 - 1))"
proof -
  let ?S = "\<lparr>token_count = 1, inference_token_count = 1, batch_decoder_input = [[0]],
          decoder_position_ids = [2], batch_predictions = [[0]],
          sequence_scores = Some [[1 / 4, 0]], all_done = [True], cache = 2 :: nat,
          trace = [([0], [1 / 4]), ([2], [2 / 5])]\<rparr>"
  have run: "decode_loop (env_of_script script_one) [[0]] 1 8
     (initial_state (env_of_script script_one) 8 1 (initial_decoder_input (env_of_script script_one) [[]]))
     = Inr ?S"
    unfolding script_one_initial by (rule script_one_run)
  have fin: "all_done ?S = [True]" by simp
  from single_sample_confidence [OF run fin]
  show ?thesis using run by simp
qed

section \<open>A sample that ends at the prefill step, in a batch of two\<close>

text \<open>
  Claim C5 says that a sample whose first predicted token is the end or pad marker has
  an empty token sequence and the score of that first step as its confidence.  Two
  samples: sample 0 predicts the end marker at the prefill step with score \<open>2 / 5\<close>,
  sample 1 predicts two letters and then the end marker.  At the second step the mask of
  line 230 has shape \<open>[2]\<close> and the scores have shape \<open>[2, 1]\<close>: the masked scores have
  shape \<open>[2, 2]\<close>, and the row of sample 0 receives the entry 0 under its own flag and its
  raw score \<open>1 / 4\<close> of that step under the flag of sample 1, which is still running.
  The token sequence of sample 0 is empty, but its score row is
  \<open>[2 / 5, 0, 1 / 4, 0, 0]\<close> and its confidence is \<open>13 / 40\<close>, not \<open>2 / 5\<close>.
\<close>

theorem first_token_end_two_samples:
  "decode_loop (env_of_script script_two) [[0], [0]] 2 8
     (initial_state (env_of_script script_two) 8 2 (initial_decoder_input (env_of_script script_two) [[], []]))
   = Inr \<lparr>token_count = 2, inference_token_count = 1, batch_decoder_input = [[0], [0]],
          decoder_position_ids = [3], batch_predictions = [[], [0, 0]],
          sequence_scores = Some [[2 / 5, 0, 1 / 4, 0, 0], [1 / 4, 0, 1 / 4, 0, 0]],
          all_done = [True, True], cache = 3,
          trace = [([2, 0], [2 / 5, 1 / 4]), ([0, 0], [1 / 4, 1 / 4]), ([0, 2], [1 / 4, 2 / 5])]\<rparr>
   \<and> recognize_batch (env_of_script script_two) 8 [Image 10 [], Image 20 []] [None, None]
       = Inr ([[], ''aa''], [Conf (13 / 40), Conf (1 / 4)])
   \<and> Conf (13 / 40) \<noteq> Conf (2 / 5)"
proof -
  have "recognize_batch (env_of_script script_two) 8 [Image 10 [], Image 20 []] [None, None]
       = Inr ([[], ''aa''], [Conf (13 / 40), Conf (1 / 4)])"
    by (simp add: recognize_batch_def encoder_stage_def py_range_def slice_def Let_def
        env_of_script_sel has_math_flag_def confidence_of_def same_shape_def
        script_two_initial [unfolded numeral_2_eq_2 One_nat_def]
        script_two_run [unfolded numeral_2_eq_2 One_nat_def])
  then show ?thesis unfolding script_two_initial using script_two_run by simp
qed

section \<open>Results about the order of the outputs\<close>

subsection \<open>Slices\<close>

lemma concat_slices_take:
  "concat (map (\<lambda>k. take b (drop (k * b) xs)) [0..<m]) = take (m * b) xs"
proof (induction m)
  case 0
  show ?case by simp
next
  case (Suc m)
  have "take (m * b + b) xs = take (m * b) xs @ take b (drop (m * b) xs)"
    by (rule take_add)
  moreover have "Suc m * b = m * b + b" by simp
  ultimately have "take (Suc m * b) xs = take (m * b) xs @ take b (drop (m * b) xs)"
    by (simp only:)
  with Suc show ?case by (simp del: mult_Suc)
qed

lemma chunk_count: "0 < b \<Longrightarrow> n \<le> ((n + b - 1) div b) * (b :: nat)"
proof -
  assume b: "0 < b"
  have "n + b - 1 = ((n + b - 1) div b) * b + (n + b - 1) mod b" by simp
  moreover have "(n + b - 1) mod b < b" using b by simp
  ultimately show ?thesis by linarith
qed

lemma chunk_start: "0 < b \<Longrightarrow> k < (n + b - 1) div b \<Longrightarrow> k * b < (n :: nat)"
proof -
  assume b: "0 < b" and k: "k < (n + b - 1) div b"
  then have "Suc k \<le> (n + b - 1) div b" by simp
  then have "Suc k * b \<le> ((n + b - 1) div b) * b" by (rule mult_le_mono1)
  also have "\<dots> \<le> n + b - 1" by simp
  finally show ?thesis using b by simp
qed

lemma py_range_pos:
  "0 < step \<Longrightarrow> py_range n step = Inr (map (\<lambda>k. k * nat step) [0..<(n + nat step - 1) div nat step])"
  by (simp add: py_range_def)

lemma concat_slices:
  assumes "0 < step" and "py_range (length xs) step = Inr starts"
  shows "concat (map (\<lambda>i. slice xs i step) starts) = xs"
proof -
  have b: "0 < nat step" using assms(1) by simp
  from assms have starts: "starts = map (\<lambda>k. k * nat step) [0..<(length xs + nat step - 1) div nat step]"
    by (simp add: py_range_def)
  have "concat (map (\<lambda>i. slice xs i step) starts)
        = take (((length xs + nat step - 1) div nat step) * nat step) xs"
    unfolding starts slice_def map_map comp_def by (rule concat_slices_take)
  also have "\<dots> = xs" using chunk_count [OF b, of "length xs"] by simp
  finally show ?thesis .
qed

lemma slice_length:
  assumes "0 < step" and "py_range n step = Inr starts" and "i \<in> set starts" and "length xs = n"
  shows "0 < length (slice xs i step)" and "length (slice xs i step) = min (nat step) (n - i)"
proof -
  have b: "0 < nat step" using assms(1) by simp
  from assms(1,2,3) obtain k where "i = k * nat step" "k < (n + nat step - 1) div nat step"
    by (auto simp: py_range_def)
  then have "i < n" using chunk_start [OF b] by simp
  then show "0 < length (slice xs i step)" using assms(4) b by (simp add: slice_def)
  show "length (slice xs i step) = min (nat step) (n - i)" using assms(4) by (simp add: slice_def min.commute)
qed

subsection \<open>The first exception\<close>

lemma collect_returns:
  assumes "\<forall>x\<in>set xs. \<exists>y. f x = Inr y \<and> P x y"
  shows "\<exists>ys. collect (map f xs) = Inr ys \<and> list_all2 P xs ys"
  using assms
proof (induction xs)
  case Nil
  show ?case by simp
next
  case (Cons x xs)
  then obtain y ys where "f x = Inr y" "P x y" "collect (map f xs) = Inr ys" "list_all2 P xs ys"
    by auto
  then show ?case by simp
qed

lemma collect_Inr:
  "collect (map f xs) = Inr ys \<Longrightarrow> list_all2 (\<lambda>x y. f x = Inr y) xs ys"
proof (induction xs arbitrary: ys)
  case Nil
  then show ?case by simp
next
  case (Cons x xs)
  then show ?case by (auto split: sum.splits)
qed

lemma length_concat_rel:
  "list_all2 (\<lambda>x y. length (g y) = length (f x)) xs ys \<Longrightarrow>
   length (concat (map g ys)) = length (concat (map f xs))"
  by (induction xs ys rule: list_all2_induct) auto

subsection \<open>The sorted pairs and the final order\<close>

lemma mset_sorted_pairs: "mset (sorted_pairs images) = mset (enumerate 0 images)"
  by (simp add: sorted_pairs_def)

lemma sorted_pairs_nth:
  assumes "k < length images"
  shows "fst (sorted_pairs images ! k) < length images"
    and "snd (sorted_pairs images ! k) = images ! fst (sorted_pairs images ! k)"
proof -
  have "length (sorted_pairs images) = length images" by (simp add: sorted_pairs_def)
  with assms have "sorted_pairs images ! k \<in> set (sorted_pairs images)" by simp
  then have "sorted_pairs images ! k \<in> set (enumerate 0 images)"
    using mset_sorted_pairs [of images] by (metis set_mset_mset)
  then show "fst (sorted_pairs images ! k) < length images"
    and "snd (sorted_pairs images ! k) = images ! fst (sorted_pairs images ! k)"
    by (auto simp: in_set_enumerate_eq)
qed

lemma indices_perm: "mset (map fst (sorted_pairs images)) = mset [0..<length images]"
proof -
  have e: "map fst (enumerate 0 images) = [0..<length images]"
    by simp
  have "mset (map fst (sorted_pairs images)) = image_mset fst (mset (sorted_pairs images))"
    by (simp only: mset_map)
  also have "\<dots> = image_mset fst (mset (enumerate 0 images))"
    by (simp only: mset_sorted_pairs)
  also have "\<dots> = mset (map fst (enumerate 0 images))" by (simp only: mset_map)
  also have "\<dots> = mset [0..<length images]" by (simp only: e)
  finally show ?thesis .
qed

lemma restore_order_nth:
  assumes perm: "mset indices = mset [0..<n]" and len: "length output = n" and k: "k < n"
  shows "length (restore_order indices output) = n"
    and "restore_order indices output ! (indices ! k) = output ! k"
proof -
  let ?zs = "zip indices output"
  let ?ys = "sort_key fst ?zs"
  have li: "length indices = n" using perm by (metis length_upt mset_eq_length minus_nat.diff_0)
  have fz: "map fst ?zs = indices" using li len by simp
  have "mset (map fst ?ys) = mset indices"
    using fz by (metis mset_map mset_sort)
  then have m: "mset (map fst ?ys) = mset [0..<n]" using perm by simp
  have "sorted (map fst ?ys)" by (rule sorted_sort_key)
  moreover have "distinct (map fst ?ys)" using m by (metis distinct_upt mset_eq_imp_distinct_iff)
  moreover have "set (map fst ?ys) = set [0..<n]" using m by (metis set_mset_mset)
  ultimately have keys: "map fst ?ys = [0..<n]"
    by (intro sorted_distinct_set_unique) simp_all
  have ly: "length ?ys = n" using li len by simp
  then show "length (restore_order indices output) = n" by (simp add: restore_order_def)
  have "(indices ! k, output ! k) \<in> set ?zs"
    using k li len by (metis nth_zip length_zip min.idem nth_mem)
  then have "(indices ! k, output ! k) \<in> set ?ys" by simp
  then obtain p where p: "p < n" "?ys ! p = (indices ! k, output ! k)"
    using ly by (metis in_set_conv_nth)
  have "fst (?ys ! p) = p" using keys p(1) ly by (metis nth_map nth_upt add_0)
  with p have "indices ! k = p" by simp
  with p ly show "restore_order indices output ! (indices ! k) = output ! k"
    by (simp add: restore_order_def)
qed

subsection \<open>A batch is recognised when the collaborators keep their shapes\<close>

lemma append_predictions_length:
  "append_predictions bp zs = Inr bp' \<Longrightarrow> length bp' = length bp"
  by (induction bp zs arbitrary: bp' rule: append_predictions.induct)
     (auto split: if_splits sum.splits)

lemma append_predictions_returns:
  "length zs \<le> length bp \<Longrightarrow> \<exists>bp'. append_predictions bp zs = Inr bp'"
  by (induction bp zs rule: append_predictions.induct) auto

lemma record_scores_length:
  assumes "record_scores pf seq scores flags = Inr rows1"
    and "pf \<or> (\<exists>st. seq = Some st \<and> length st = length scores)"
  shows "length rows1 = length scores"
  using assms
  by (auto simp: record_scores_def masked_fill_unsqueeze1 cat_dim1_def
           split: if_splits option.splits)

lemma record_scores_returns:
  assumes "pf \<or> (\<exists>st. seq = Some st \<and> length st = length scores)"
  shows "\<exists>rows1. record_scores pf seq scores flags = Inr rows1"
  using assms
  by (auto simp: record_scores_def masked_fill_unsqueeze1 cat_dim1_def)

lemma length_pad_to_batch_size: "length t \<le> length (pad_to_batch_size z t b)"
  by (simp add: pad_to_batch_size_def Let_def)

lemma step_logits_shape:
  assumes dec: "\<forall>st inp c pos pf. length (fst (decoder env st inp c pos pf)) = length inp
                  \<and> [] \<notin> set (fst (decoder env st inp c pos pf))"
    and "cbs \<le> length (batch_decoder_input s)"
  shows "length (step_logits env ctx cbs s) = cbs" and "[] \<notin> set (step_logits env ctx cbs s)"
proof -
  let ?al = "fst (decoder env (cache s) (batch_decoder_input s) ctx (decoder_position_ids s) (token_count s = 0))"
  have "length ?al = length (batch_decoder_input s)" and ne: "[] \<notin> set ?al" using dec by blast+
  with assms(2) show "length (step_logits env ctx cbs s) = cbs" by (simp add: step_logits_def)
  show "[] \<notin> set (step_logits env ctx cbs s)"
    using ne unfolding step_logits_def by (meson in_set_takeD)
qed

lemma decode_body_returns:
  assumes dec: "\<forall>st inp c pos pf. length (fst (decoder env st inp c pos pf)) = length inp
                  \<and> [] \<notin> set (fst (decoder env st inp c pos pf))"
    and shape: "loop_shape cbs s"
  shows "\<exists>left s1. decode_body env ctx cbs bs s = Inr (left, s1)"
proof -
  obtain al c1 where d: "decoder env (cache s) (batch_decoder_input s) ctx (decoder_position_ids s)
                           (token_count s = 0) = (al, c1)" by (cases "decoder env (cache s) (batch_decoder_input s) ctx (decoder_position_ids s)
                           (token_count s = 0)") auto
  have inp: "cbs \<le> length (batch_decoder_input s)" using shape by (simp add: loop_shape_def)
  have L: "step_logits env ctx cbs s = take cbs al" by (simp add: step_logits_def d)
  have lenL: "length (take cbs al) = cbs" and neL: "[] \<notin> set (take cbs al)"
    using step_logits_shape [OF dec inp, of ctx] unfolding L by simp_all
  let ?preds = "step_preds (take cbs al)"
  let ?flags = "map2 (\<or>) (all_done s) (step_done env ?preds)"
  have bc: "broadcast2 (\<or>) (all_done s) (step_done env ?preds) = Inr ?flags"
    using shape lenL by (simp add: broadcast2_def loop_shape_def)
  have "token_count s = 0 \<or> (\<exists>st. sequence_scores s = Some st
           \<and> length st = length (step_scores (take cbs al)))"
    using shape lenL by (auto simp: loop_shape_def)
  from record_scores_returns [OF this] obtain rows1 where
    rec: "record_scores (token_count s = 0) (sequence_scores s) (step_scores (take cbs al)) ?flags
           = Inr rows1" by blast
  have "length (zip ?preds ?flags) \<le> length (batch_predictions s)"
    using shape lenL by (simp add: loop_shape_def)
  from append_predictions_returns [OF this] obtain bp1 where
    ap: "append_predictions (batch_predictions s) (zip ?preds ?flags) = Inr bp1" by blast
  have pos: "drop (length (decoder_position_ids s) - 1) (decoder_position_ids s) \<noteq> []"
    using shape by (cases "decoder_position_ids s") (auto simp: loop_shape_def)
  have pne: "?preds \<noteq> []" using shape lenL by (auto simp: step_preds_nil loop_shape_def)
  show ?thesis
    unfolding decode_body_def Let_def d using neL pos pne
    by (auto simp: bc rec ap)
qed

lemma decode_body_shape:
  assumes dec: "\<forall>st inp c pos pf. length (fst (decoder env st inp c pos pf)) = length inp
                  \<and> [] \<notin> set (fst (decoder env st inp c pos pf))"
    and shape: "loop_shape cbs s"
    and body: "decode_body env ctx cbs bs s = Inr (left, s1)"
  shows "length (batch_predictions s1) = cbs"
    and "\<exists>rows. sequence_scores s1 = Some rows \<and> length rows = cbs"
    and "\<not> left \<Longrightarrow> loop_shape cbs (s1\<lparr>token_count := t, inference_token_count := i\<rparr>)"
proof -
  have inp: "cbs \<le> length (batch_decoder_input s)" using shape by (simp add: loop_shape_def)
  note L = step_logits_shape [OF dec inp, of ctx]
  from decode_body_Inr(2) [OF body]
  have "map2 (\<or>) (all_done s) (step_done env (step_preds (step_logits env ctx cbs s))) = all_done s1"
    using shape L(1) by (simp add: broadcast2_def loop_shape_def)
  then have "length (all_done s1)
      = length (map2 (\<or>) (all_done s) (step_done env (step_preds (step_logits env ctx cbs s))))"
    by simp
  then have ad: "length (all_done s1) = cbs"
    using shape L(1) by (simp add: loop_shape_def)
  from decode_body_Inr(3) [OF body] obtain rows1 where
    rec: "record_scores (token_count s = 0) (sequence_scores s)
            (step_scores (step_logits env ctx cbs s)) (all_done s1) = Inr rows1"
    and seq1: "sequence_scores s1 = Some rows1" by blast
  have "token_count s = 0 \<or> (\<exists>st. sequence_scores s = Some st
           \<and> length st = length (step_scores (step_logits env ctx cbs s)))"
    using shape L(1) by (auto simp: loop_shape_def)
  from record_scores_length [OF rec this] L(1) have lr: "length rows1 = cbs" by simp
  with seq1 show seq: "\<exists>rows. sequence_scores s1 = Some rows \<and> length rows = cbs" by blast
  show bp: "length (batch_predictions s1) = cbs"
  proof (cases left)
    case True
    with decode_body_Inr(8) [OF body] shape show ?thesis by (simp add: loop_shape_def)
  next
    case False
    from append_predictions_length [OF decode_body_Inr(9) [OF body False]] shape
    show ?thesis by (simp add: loop_shape_def)
  qed
  assume nl: "\<not> left"
  have "cbs \<le> length (batch_decoder_input s1)"
    using decode_body_Inr(10) [OF body nl] L(1) length_pad_to_batch_size [of "unsqueeze1 (step_preds (step_logits env ctx cbs s))" "[0]" bs]
    by (auto split: if_splits)
  moreover have "decoder_position_ids s1 \<noteq> []" using decode_body_Inr(11) [OF body nl] by auto
  moreover have "1 \<le> cbs" using shape by (simp add: loop_shape_def)
  ultimately show "loop_shape cbs (s1\<lparr>token_count := t, inference_token_count := i\<rparr>)"
    using ad bp seq by (simp add: loop_shape_def)
qed

lemma decode_loop_returns:
  "\<forall>st inp c pos pf. length (fst (decoder env st inp c pos pf)) = length inp
       \<and> [] \<notin> set (fst (decoder env st inp c pos pf)) \<Longrightarrow>
   loop_shape cbs s \<Longrightarrow>
   \<exists>s'. decode_loop env ctx cbs bs s = Inr s' \<and> length (batch_predictions s') = cbs
      \<and> (if token_count s < RECOGNITION_MAX_TOKENS env - 1
          then \<exists>rows. sequence_scores s' = Some rows \<and> length rows = cbs
          else s' = s)"
proof (induction env ctx cbs bs s rule: decode_loop.induct)
  case (1 env ctx cbs bs s)
  note dec = "1.prems"(1) and shape = "1.prems"(2)
  show ?case
  proof (cases "token_count s < RECOGNITION_MAX_TOKENS env - 1")
    case False
    with shape show ?thesis by (simp add: decode_loop.simps loop_shape_def)
  next
    case True
    from decode_body_returns [OF dec shape] obtain left s1
      where body: "decode_body env ctx cbs bs s = Inr (left, s1)" by blast
    note sh = decode_body_shape [OF dec shape body]
    show ?thesis
    proof (cases left)
      case True
      with body \<open>token_count s < _\<close> have "decode_loop env ctx cbs bs s = Inr s1"
        by (subst decode_loop.simps) simp
      with sh(1,2) \<open>token_count s < _\<close> show ?thesis by simp
    next
      case False
      let ?s2 = "s1\<lparr>token_count := token_count s + int (inference_token_count s), inference_token_count := 1\<rparr>"
      have eq: "decode_loop env ctx cbs bs s = decode_loop env ctx cbs bs ?s2"
        using body False \<open>token_count s < _\<close> by (subst decode_loop.simps) simp
      from "1.IH" [OF \<open>token_count s < _\<close> body refl False dec sh(3) [OF False]]
      obtain s' where s': "decode_loop env ctx cbs bs ?s2 = Inr s'"
        "length (batch_predictions s') = cbs"
        "if token_count ?s2 < RECOGNITION_MAX_TOKENS env - 1
          then \<exists>rows. sequence_scores s' = Some rows \<and> length rows = cbs
          else s' = ?s2" by blast
      from s'(3) sh(2) have "\<exists>rows. sequence_scores s' = Some rows \<and> length rows = cbs"
        by (auto split: if_splits)
      with s'(1,2) eq \<open>token_count s < _\<close> show ?thesis by simp
    qed
  qed
qed

lemma same_shape_uniform: "\<forall>row\<in>set rows. length row = w \<Longrightarrow> same_shape rows"
  by (cases rows) (auto simp: same_shape_def list_all_iff)

lemma same_shape_map_const: "same_shape (map (\<lambda>_. row) xs)"
  by (rule same_shape_uniform [of _ "length row"]) simp

lemma encoder_stage_returns:
  assumes "1 \<le> RECOGNITION_ENCODER_BATCH_DIVISOR env" and "1 \<le> bs" and "pv \<noteq> []"
    and enc: "\<forall>x. \<forall>row\<in>set (encoder env x). length row = hidden_width"
  shows "\<exists>hidden. encoder_stage env bs pv = Inr hidden"
proof -
  let ?e = "bs div RECOGNITION_ENCODER_BATCH_DIVISOR env + 1"
  have "0 \<le> bs div RECOGNITION_ENCODER_BATCH_DIVISOR env"
    using assms(1,2) by (simp add: pos_imp_zdiv_nonneg_iff)
  then have e: "0 < ?e" by simp
  have "nat ?e \<le> length pv + nat ?e - 1" using assms(3) by (cases pv) auto
  then have "0 < (length pv + nat ?e - 1) div nat ?e"
    using e by (simp add: div_greater_zero_iff)
  then have "[0..<(length pv + nat ?e - 1) div nat ?e] \<noteq> []" by simp
  moreover have "same_shape (concat (map (\<lambda>z. encoder env (slice pv z ?e)) starts))" for starts
    using enc by (intro same_shape_uniform [of _ hidden_width]) auto
  ultimately show ?thesis
    using e assms(1) unfolding encoder_stage_def Let_def py_range_def
    by (simp del: upt_eq_Nil_conv map_map)
qed

lemma initial_state_shape:
  assumes "bl \<noteq> []" and "length bl = cbs"
  shows "loop_shape cbs (initial_state env bs cbs (initial_decoder_input env bl))"
proof -
  have w: "1 \<le> length (hd (initial_decoder_input env bl))"
    by (rule initial_decoder_input_width [OF assms(1)])
  have l: "length (initial_decoder_input env bl) = length bl"
    by (simp add: initial_decoder_input_def Let_def)
  have "cbs \<le> length (batch_decoder_input (initial_state env bs cbs (initial_decoder_input env bl)))"
    using l assms(2) length_pad_to_batch_size [of "initial_decoder_input env bl"]
    by (auto simp: initial_state_def Let_def)
  moreover have "decoder_position_ids (initial_state env bs cbs (initial_decoder_input env bl)) \<noteq> []"
    using w by (auto simp: initial_state_def Let_def)
  moreover have "1 \<le> cbs" using assms by (cases bl) auto
  ultimately show ?thesis by (simp add: loop_shape_def)
qed

lemma recognize_batch_returns:
  assumes proc: "\<forall>imgs langs. length (fst (processor env imgs langs)) = length imgs
                   \<and> length (snd (processor env imgs langs)) = length imgs
                   \<and> same_shape (fst (processor env imgs langs))"
    and enc: "\<forall>x. \<forall>row\<in>set (encoder env x). length row = hidden_width"
    and dec: "\<forall>st inp c pos pf. length (fst (decoder env st inp c pos pf)) = length inp
                  \<and> [] \<notin> set (fst (decoder env st inp c pos pf))"
    and tok: "\<forall>preds. length (batch_decode env preds) = length preds"
    and budget: "2 \<le> RECOGNITION_MAX_TOKENS env"
    and dv: "1 \<le> RECOGNITION_ENCODER_BATCH_DIVISOR env"
    and bs: "1 \<le> bs" and ne: "imgs \<noteq> []" and len: "length langs = length imgs"
  shows "\<exists>texts confs. recognize_batch env bs imgs langs = Inr (texts, confs)
           \<and> length texts = length imgs \<and> length confs = length imgs"
proof -
  obtain pv bl where p: "processor env (map (convert_rgb env) imgs) langs = (pv, bl)"
    by (cases "processor env (map (convert_rgb env) imgs) langs") auto
  from proc [rule_format, of "map (convert_rgb env) imgs" langs] p
  have lpv: "length pv = length imgs" and lbl: "length bl = length imgs"
    and shp: "same_shape pv" by simp_all
  with ne have pvne: "pv \<noteq> []" and blne: "bl \<noteq> []" by auto
  from encoder_stage_returns [OF dv bs pvne enc] obtain hidden
    where enc: "encoder_stage env bs pv = Inr hidden" by blast
  let ?ctx = "if RECOGNITION_STATIC_CACHE env
              then pad_to_batch_size (zero_slice_of hidden) hidden bs else hidden"
  let ?s0 = "initial_state env bs (length pv) (initial_decoder_input env bl)"
  have shape: "loop_shape (length pv) ?s0"
    by (rule initial_state_shape [OF blne]) (simp add: lpv lbl)
  from decode_loop_returns [OF dec shape, of ?ctx bs] budget
  obtain s' rows where run: "decode_loop env ?ctx (length pv) bs ?s0 = Inr s'"
    and bp: "length (batch_predictions s') = length pv"
    and rows: "sequence_scores s' = Some rows" "length rows = length pv"
    by auto
  have "recognize_batch env bs imgs langs =
          Inr (map (\<lambda>(text, math). if math \<and> contains_math env text then fix_math env text else text)
                 (zip (map (truncate_repetitions env) (batch_decode env (batch_predictions s')))
                      (map has_math_flag langs)),
               map confidence_of rows)"
    unfolding recognize_batch_def Let_def p using pvne blne shp enc run rows(1)
    by (simp split: if_splits)
  moreover have "length (batch_decode env (batch_predictions s')) = length imgs"
    using tok bp lpv by simp
  ultimately show ?thesis using rows(2) lpv len by simp
qed

subsection \<open>The outputs of the batches\<close>

lemma drop_concat_uniform:
  "j \<le> length xss \<Longrightarrow> \<forall>i<j. length (xss ! i) = b \<Longrightarrow>
   drop (j * b) (concat xss) = concat (drop j xss)"
proof (induction xss arbitrary: j)
  case Nil
  then show ?case by simp
next
  case (Cons xs xss)
  show ?case
  proof (cases j)
    case 0
    then show ?thesis by simp
  next
    case (Suc j')
    with Cons.prems have l: "length xs = b" and j': "j' \<le> length xss"
      and rest: "\<forall>i<j'. length (xss ! i) = b" by auto
    have "drop (j * b) (concat (xs # xss)) = drop (j' * b) (concat xss)"
      using l Suc by simp
    with Cons.IH [OF j' rest] Suc show ?thesis by simp
  qed
qed

lemma nth_chunk:
  assumes b: "0 < b"
    and lens: "\<forall>i<length xss. length (xss ! i) = min b (n - i * b)"
    and starts: "\<forall>i<length xss. i * b < n"
    and j: "j < length xss"
  shows "take b (drop (j * b) (concat xss)) = xss ! j"
proof -
  have "\<forall>i<j. length (xss ! i) = b"
  proof (intro allI impI)
    fix i assume i: "i < j"
    then have "Suc i * b \<le> j * b" by (intro mult_le_mono1) simp
    also have "j * b < n" using starts j by simp
    finally have "b \<le> n - i * b" by simp
    with lens i j show "length (xss ! i) = b" by simp
  qed
  from drop_concat_uniform [OF _ this] j
  have d: "drop (j * b) (concat xss) = concat (drop j xss)" by simp
  have split: "drop j xss = xss ! j # drop (Suc j) xss" using j by (simp add: Cons_nth_drop_Suc)
  show ?thesis
  proof (cases "Suc j < length xss")
    case True
    then have "Suc j * b < n" using starts by blast
    then have "b \<le> n - j * b" by simp
    with lens j have "length (xss ! j) = b" by simp
    then show ?thesis unfolding d split by simp
  next
    case False
    with j have "drop (Suc j) xss = []" by simp
    moreover have "length (xss ! j) \<le> b" using lens j by simp
    ultimately show ?thesis unfolding d split by simp
  qed
qed

lemma batch_outputs_slices:
  assumes proc: "\<forall>imgs langs. length (fst (processor env imgs langs)) = length imgs
                   \<and> length (snd (processor env imgs langs)) = length imgs
                   \<and> same_shape (fst (processor env imgs langs))"
    and enc: "\<forall>x. \<forall>row\<in>set (encoder env x). length row = hidden_width"
    and dec: "\<forall>st inp c pos pf. length (fst (decoder env st inp c pos pf)) = length inp
                  \<and> [] \<notin> set (fst (decoder env st inp c pos pf))"
    and tok: "\<forall>preds. length (batch_decode env preds) = length preds"
    and budget: "2 \<le> RECOGNITION_MAX_TOKENS env"
    and dv: "1 \<le> RECOGNITION_ENCODER_BATCH_DIVISOR env"
    and bs: "1 \<le> bs" and len: "length images = length languages"
  shows "\<exists>output_text confidences. batch_outputs env images languages bs = Inr (output_text, confidences)
           \<and> length output_text = length images \<and> length confidences = length images
           \<and> (\<forall>j. j * nat bs < length images \<longrightarrow>
                 recognize_batch env bs (slice (map snd (sorted_pairs images)) (j * nat bs) bs)
                    (slice languages (j * nat bs) bs)
                 = Inr (slice output_text (j * nat bs) bs, slice confidences (j * nat bs) bs))"
proof -
  let ?imgs = "map snd (sorted_pairs images)"
  let ?n = "length images"
  let ?b = "nat bs"
  let ?m = "(?n + ?b - 1) div ?b"
  have n: "length ?imgs = ?n" by (simp add: sorted_pairs_def)
  have pos: "0 < bs" using bs by simp
  have b: "0 < ?b" using bs by simp
  let ?starts = "map (\<lambda>k. k * ?b) [0..<?m]"
  have st: "py_range (length ?imgs) bs = Inr ?starts"
    using pos n by (simp add: py_range_def)
  let ?batches = "map (\<lambda>i. (slice ?imgs i bs, slice languages i bs)) ?starts"
  have bi: "batch_inputs images languages bs = Inr ?batches"
    using st by (simp add: batch_inputs_def Let_def)
  let ?f = "\<lambda>(batch_images, batch_langs). recognize_batch env bs batch_images batch_langs"
  let ?P = "\<lambda>batch r. ?f batch = Inr r \<and> length (fst r) = length (fst batch)
                \<and> length (snd r) = length (fst batch)"
  have "\<forall>batch\<in>set ?batches. \<exists>r. ?f batch = Inr r \<and> ?P batch r"
  proof
    fix batch assume "batch \<in> set ?batches"
    then obtain i where i: "i \<in> set ?starts" and bt: "batch = (slice ?imgs i bs, slice languages i bs)"
      by auto
    have ne: "slice ?imgs i bs \<noteq> []"
      using slice_length(1) [OF pos st i refl] by simp
    have "length (slice languages i bs) = length (slice ?imgs i bs)"
      using slice_length(2) [OF pos st i refl]
            slice_length(2) [OF pos st i, of languages] len n by simp
    from recognize_batch_returns [OF proc enc dec tok budget dv bs ne this]
    show "\<exists>r. ?f batch = Inr r \<and> ?P batch r" unfolding bt by auto
  qed
  from collect_returns [OF this] obtain results where
    c: "collect (map ?f ?batches) = Inr results" and rel: "list_all2 ?P ?batches results" by blast
  have lr: "length results = ?m" using list_all2_lengthD [OF rel] by simp
  have cat: "concat (map fst ?batches) = ?imgs"
    using concat_slices [OF pos st] by (simp add: comp_def)
  have l1: "length (concat (map fst results)) = length (concat (map fst ?batches))"
    by (rule length_concat_rel) (rule list_all2_mono [OF rel], simp)
  have l2: "length (concat (map snd results)) = length (concat (map fst ?batches))"
    by (rule length_concat_rel) (rule list_all2_mono [OF rel], simp)
  let ?ot = "concat (map fst results)" and ?cf = "concat (map snd results)"
  have out: "batch_outputs env images languages bs = Inr (?ot, ?cf)"
    unfolding batch_outputs_def bi using c by simp
  have nth: "\<And>j. j < ?m \<Longrightarrow> ?P (slice ?imgs (j * ?b) bs, slice languages (j * ?b) bs) (results ! j)"
  proof -
    fix j assume j: "j < ?m"
    from list_all2_nthD [OF rel, of j] j
    show "?P (slice ?imgs (j * ?b) bs, slice languages (j * ?b) bs) (results ! j)" by simp
  qed
  have starts: "\<And>i. i < ?m \<Longrightarrow> i * ?b < ?n" by (rule chunk_start [OF b])
  have lens1: "\<forall>i<length (map fst results). length (map fst results ! i) = min ?b (?n - i * ?b)"
    using nth lr n by (auto simp: slice_def min.commute)
  have lens2: "\<forall>i<length (map snd results). length (map snd results ! i) = min ?b (?n - i * ?b)"
    using nth lr n by (auto simp: slice_def min.commute)
  have "\<forall>j. j * ?b < ?n \<longrightarrow>
          recognize_batch env bs (slice ?imgs (j * ?b) bs) (slice languages (j * ?b) bs)
          = Inr (slice ?ot (j * ?b) bs, slice ?cf (j * ?b) bs)"
  proof (intro allI impI)
    fix j assume "j * ?b < ?n"
    also have "?n \<le> ?m * ?b" by (rule chunk_count [OF b])
    finally have j: "j < ?m" using b by simp
    have "take ?b (drop (j * ?b) ?ot) = map fst results ! j"
      by (rule nth_chunk [OF b lens1]) (use starts lr j in simp_all)
    moreover have "take ?b (drop (j * ?b) ?cf) = map snd results ! j"
      by (rule nth_chunk [OF b lens2]) (use starts lr j in simp_all)
    ultimately have "(slice ?ot (j * ?b) bs, slice ?cf (j * ?b) bs) = results ! j"
      using j lr by (simp add: slice_def)
    with nth [OF j] show "recognize_batch env bs (slice ?imgs (j * ?b) bs) (slice languages (j * ?b) bs)
          = Inr (slice ?ot (j * ?b) bs, slice ?cf (j * ?b) bs)" by simp
  qed
  with out l1 l2 cat n show ?thesis by simp
qed

text \<open>
  Claim C2.  A valid input: as many language lists as images, a batch size of at least
  1 (or none, with a call of \<open>get_batch_size\<close> that returns), a token budget of at least
  2, an encoder divisor of at least 1, and collaborators that keep their shapes (the
  processor returns one pixel row and one token list per image, with pixel rows of one
  shape; the encoder returns hidden rows of one shape; the decoder returns one nonempty
  row of logits per row of its input; the tokenizer one text per token sequence).  Then \<open>batch_recognition\<close>
  returns texts and confidences, as many of each as there are images.  The results come
  from the batches in the order of the sorted images: the batch that starts at position
  \<open>j * batch_size\<close> of the sorted images is recognised to the slice of \<^verbatim>\<open>output_text\<close> and
  \<^verbatim>\<open>confidences\<close> at the same position.  The final sort puts the result at position \<open>k\<close>,
  computed for the \<open>k\<close>-th sorted image, at the index that image had in the caller's
  list.
\<close>

theorem batch_recognition_order:
  assumes len: "length images = length languages"
    and bs0: "case batch_size0 of
                Some b \<Rightarrow> 1 \<le> b
              | None \<Rightarrow> (\<exists>b. get_batch_size (memory env) = Inr b)"
    and budget: "2 \<le> RECOGNITION_MAX_TOKENS env"
    and dv: "1 \<le> RECOGNITION_ENCODER_BATCH_DIVISOR env"
    and proc: "\<forall>imgs langs. length (fst (processor env imgs langs)) = length imgs
                   \<and> length (snd (processor env imgs langs)) = length imgs
                   \<and> same_shape (fst (processor env imgs langs))"
    and enc: "\<forall>x. \<forall>row\<in>set (encoder env x). length row = hidden_width"
    and dec: "\<forall>st inp c pos pf. length (fst (decoder env st inp c pos pf)) = length inp
                  \<and> [] \<notin> set (fst (decoder env st inp c pos pf))"
    and tok: "\<forall>preds. length (batch_decode env preds) = length preds"
  shows "\<exists>batch_size output_text confidences texts confs.
           (case batch_size0 of Some b \<Rightarrow> batch_size = b
                              | None \<Rightarrow> get_batch_size (memory env) = Inr batch_size)
         \<and> batch_outputs env images languages batch_size = Inr (output_text, confidences)
         \<and> (\<forall>j. j * nat batch_size < length images \<longrightarrow>
               recognize_batch env batch_size
                  (slice (map snd (sorted_pairs images)) (j * nat batch_size) batch_size)
                  (slice languages (j * nat batch_size) batch_size)
               = Inr (slice output_text (j * nat batch_size) batch_size,
                      slice confidences (j * nat batch_size) batch_size))
         \<and> batch_recognition env images languages batch_size0 = Inr (texts, confs)
         \<and> length texts = length images \<and> length confs = length images
         \<and> (\<forall>k<length images.
               fst (sorted_pairs images ! k) < length images
             \<and> snd (sorted_pairs images ! k) = images ! fst (sorted_pairs images ! k)
             \<and> texts ! fst (sorted_pairs images ! k) = output_text ! k
             \<and> confs ! fst (sorted_pairs images ! k) = confidences ! k)"
proof -
  obtain bs where bsv: "case batch_size0 of Some b \<Rightarrow> bs = b
                              | None \<Rightarrow> get_batch_size (memory env) = Inr bs"
    and bs: "1 \<le> bs"
  proof (cases batch_size0)
    case None
    with bs0 obtain b where b: "get_batch_size (memory env) = Inr b" by auto
    from get_batch_size_Inr [OF b] obtain n
      where "b = adjust_batch (TORCH_DEVICE_MODEL (memory env)) n" ..
    moreover have "1 \<le> adjust_batch (TORCH_DEVICE_MODEL (memory env)) n"
      using adjust_batch_bounds [of "TORCH_DEVICE_MODEL (memory env)" n] by simp
    ultimately show ?thesis using that None b by simp
  next
    case (Some b)
    with bs0 that show ?thesis by simp
  qed
  from batch_outputs_slices [OF proc enc dec tok budget dv bs len] obtain ot cf where
    out: "batch_outputs env images languages bs = Inr (ot, cf)"
    and lot: "length ot = length images" and lcf: "length cf = length images"
    and sl: "\<forall>j. j * nat bs < length images \<longrightarrow>
                 recognize_batch env bs (slice (map snd (sorted_pairs images)) (j * nat bs) bs)
                    (slice languages (j * nat bs) bs)
                 = Inr (slice ot (j * nat bs) bs, slice cf (j * nat bs) bs)" by blast
  let ?ix = "map fst (sorted_pairs images)"
  have lsp: "length (sorted_pairs images) = length images" by (simp add: sorted_pairs_def)
  have rec: "batch_recognition env images languages batch_size0
               = Inr (restore_order ?ix ot, restore_order ?ix cf)"
  proof (cases "length images = 0")
    case True
    with lot lcf show ?thesis using len by (simp add: batch_recognition_def restore_order_def)
  next
    case False
    have "(case batch_size0 of None \<Rightarrow> get_batch_size (memory env) | Some b \<Rightarrow> Inr b) = Inr bs"
      using bsv by (cases batch_size0) auto
    with False len out show ?thesis by (simp add: batch_recognition_def Let_def)
  qed
  have order: "\<forall>k<length images.
               fst (sorted_pairs images ! k) < length images
             \<and> snd (sorted_pairs images ! k) = images ! fst (sorted_pairs images ! k)
             \<and> restore_order ?ix ot ! fst (sorted_pairs images ! k) = ot ! k
             \<and> restore_order ?ix cf ! fst (sorted_pairs images ! k) = cf ! k"
  proof (intro allI impI)
    fix k assume k: "k < length images"
    have ik: "?ix ! k = fst (sorted_pairs images ! k)" using k lsp by simp
    from restore_order_nth(2) [OF indices_perm lot k] restore_order_nth(2) [OF indices_perm lcf k]
         sorted_pairs_nth [OF k]
    show "fst (sorted_pairs images ! k) < length images
             \<and> snd (sorted_pairs images ! k) = images ! fst (sorted_pairs images ! k)
             \<and> restore_order ?ix ot ! fst (sorted_pairs images ! k) = ot ! k
             \<and> restore_order ?ix cf ! fst (sorted_pairs images ! k) = cf ! k"
      unfolding ik by simp
  qed
  have l: "length (restore_order ?ix ot) = length images" "length (restore_order ?ix cf) = length images"
    using lot lcf lsp by (simp_all add: restore_order_def)
  show ?thesis
    using bsv out sl rec l order
    by (intro exI [of _ bs] exI [of _ ot] exI [of _ cf] exI [of _ "restore_order ?ix ot"]
              exI [of _ "restore_order ?ix cf"]) simp
qed

theorem batch_recognition_order_witness:
  "\<exists>texts confs.
     batch_recognition (env_of_script script_one)
        [Image 50 [0], Image 10 [1], Image 30 [2]]
        [Some [''en''], Some [''fr''], Some [''de'']] (Some 2) = Inr (texts, confs)
     \<and> length texts = 3 \<and> length confs = 3"
proof -
  have "\<exists>batch_size output_text confidences texts confs.
           (case Some 2 of Some b \<Rightarrow> batch_size = b
                              | None \<Rightarrow> get_batch_size (memory (env_of_script script_one)) = Inr batch_size)
         \<and> batch_outputs (env_of_script script_one) [Image 50 [0], Image 10 [1], Image 30 [2]]
        [Some [''en''], Some [''fr''], Some [''de'']] batch_size = Inr (output_text, confidences)
         \<and> (\<forall>j. j * nat batch_size < length [Image 50 [0], Image 10 [1], Image 30 [2]] \<longrightarrow>
               recognize_batch (env_of_script script_one) batch_size
                  (slice (map snd (sorted_pairs [Image 50 [0], Image 10 [1], Image 30 [2]])) (j * nat batch_size) batch_size)
                  (slice [Some [''en''], Some [''fr''], Some [''de'']] (j * nat batch_size) batch_size)
               = Inr (slice output_text (j * nat batch_size) batch_size,
                      slice confidences (j * nat batch_size) batch_size))
         \<and> batch_recognition (env_of_script script_one) [Image 50 [0], Image 10 [1], Image 30 [2]]
        [Some [''en''], Some [''fr''], Some [''de'']] (Some 2) = Inr (texts, confs)
         \<and> length texts = length [Image 50 [0], Image 10 [1], Image 30 [2]] \<and> length confs = length [Image 50 [0], Image 10 [1], Image 30 [2]]
         \<and> (\<forall>k<length [Image 50 [0], Image 10 [1], Image 30 [2]].
               fst (sorted_pairs [Image 50 [0], Image 10 [1], Image 30 [2]] ! k) < length [Image 50 [0], Image 10 [1], Image 30 [2]]
             \<and> snd (sorted_pairs [Image 50 [0], Image 10 [1], Image 30 [2]] ! k) = [Image 50 [0], Image 10 [1], Image 30 [2]] ! fst (sorted_pairs [Image 50 [0], Image 10 [1], Image 30 [2]] ! k)
             \<and> texts ! fst (sorted_pairs [Image 50 [0], Image 10 [1], Image 30 [2]] ! k) = output_text ! k
             \<and> confs ! fst (sorted_pairs [Image 50 [0], Image 10 [1], Image 30 [2]] ! k) = confidences ! k)"
    by (rule batch_recognition_order [where hidden_width = 1])
       (auto simp: env_of_script_sel script_one_def script_logits_nonempty
          same_shape_map_const)
  then show ?thesis by auto
qed

end
